theory Spec2Isabelle
  imports Main "HOL-Library.AList"
begin

section \<open>Data model of \<open>cyberbrain/frame.py\<close>\<close>

text \<open>
  Python objects that are shared and then written to are kept in explicit stores, so that
  aliasing is visible: an object's address (\<open>ref\<close>) is its index in the store, and a new
  object is placed at the end of the store. Two kinds of objects need this:
  \<^item> \<open>Event\<close> objects: \<open>raw_events\<close> holds references to them, \<open>accumulated_events\<close>
    returns references to them and calls \<open>copy\<close> before it assigns an attribute;
  \<^item> the \<open>events_pointer\<close> dictionaries of snapshots: \<open>_add_new_event\<close> calls
    \<open>.copy()\<close> on the last one before it increments an entry.
  Lists that are reachable through one path only (\<open>raw_events[name]\<close>, \<open>snapshots\<close>) are
  plain values.
\<close>

type_synonym ref = nat

text \<open>The exceptions the code can raise, and Python's class \<open>LookupError\<close>, whose
  built-in subclasses are \<open>IndexError\<close> and \<open>KeyError\<close>.\<close>

datatype exn = AssertionError | AttributeError | IndexError | KeyError

fun isinstance_LookupError :: "exn \<Rightarrow> bool" where
  "isinstance_LookupError IndexError = True"
| "isinstance_LookupError KeyError = True"
| "isinstance_LookupError AssertionError = False"
| "isinstance_LookupError AttributeError = False"

text \<open>
  Modelled from the spec: the event classes of \<open>cyberbrain/basis.py\<close>, which
  \<open>frame.py\<close> imports. The fields are those that \<open>frame.py\<close> passes to the
  constructors: \<open>InitialValue(target, value, lineno, filename)\<close>,
  \<open>Creation(target, value, sources, lineno, filename)\<close>,
  \<open>Mutation(target, delta, sources, lineno, filename)\<close> and
  \<open>Deletion(target, lineno, filename)\<close>. A \<open>Mutation\<close> has a further attribute
  \<open>value\<close>, which only \<open>accumulated_events\<close> assigns (on a copy); it is \<open>None\<close> on
  the events that \<open>log_events\<close> builds. \<open>'v\<close> is the type of traced values, \<open>'d\<close> the
  type of deltas of the external codec, \<open>'s\<close> the type of the \<open>sources\<close> collection, which
  \<open>frame.py\<close> passes through unread.
\<close>

datatype ('v, 'd, 's) Event =
    InitialValue string 'v int string
  | Creation string 'v 's int string
  | Mutation string 'd 's "'v option" int string
  | Deletion string int string

fun target :: "('v, 'd, 's) Event \<Rightarrow> string" where
  "target (InitialValue t v l f) = t"
| "target (Creation t v src l f) = t"
| "target (Mutation t d src vo l f) = t"
| "target (Deletion t l f) = t"

fun isinstance_InitialValue :: "('v, 'd, 's) Event \<Rightarrow> bool" where
  "isinstance_InitialValue (InitialValue t v l f) = True"
| "isinstance_InitialValue _ = False"

fun isinstance_Creation :: "('v, 'd, 's) Event \<Rightarrow> bool" where
  "isinstance_Creation (Creation t v src l f) = True"
| "isinstance_Creation _ = False"

fun isinstance_Mutation :: "('v, 'd, 's) Event \<Rightarrow> bool" where
  "isinstance_Mutation (Mutation t d src vo l f) = True"
| "isinstance_Mutation _ = False"

fun isinstance_Deletion :: "('v, 'd, 's) Event \<Rightarrow> bool" where
  "isinstance_Deletion (Deletion t l f) = True"
| "isinstance_Deletion _ = False"

text \<open>Reading the attribute \<open>value\<close> of an event: a \<open>Deletion\<close> has none.\<close>

fun getattr_value :: "('v, 'd, 's) Event \<Rightarrow> exn + 'v" where
  "getattr_value (InitialValue t v l f) = Inr v"
| "getattr_value (Creation t v src l f) = Inr v"
| "getattr_value (Mutation t d src vo l f) =
     (case vo of None \<Rightarrow> Inl AttributeError | Some v \<Rightarrow> Inr v)"
| "getattr_value (Deletion t l f) = Inl AttributeError"

text \<open>
  Modelled from the spec: \<open>EventType\<close> of \<open>cyberbrain/basis.py\<close> and the event
  information that \<open>value_stack.emit_event_and_update_stack\<close> returns (target, observed
  kind, source references). \<open>log_events\<close> reads \<open>EventType.Mutation\<close> and
  \<open>EventType.Deletion\<close>.
\<close>

datatype EventType = EventType_Mutation | EventType_Deletion

record 's EventInfo =
  info_target :: string
  info_type :: EventType
  info_sources :: 's

text \<open>\<open>class Snapshot\<close>: \<open>events_pointer\<close> refers to a dictionary in the store.\<close>

record Snapshot =
  events_pointer :: ref
  location :: "(string \<times> int) option"

text \<open>
  The state: the two object stores, and the fields of the \<open>Frame\<close> object that the
  methods below read or write (\<open>value_stack\<close>, \<open>parent\<close> and \<open>children\<close> are set by
  \<open>__init__\<close> and not used by them). \<open>raw_events\<close> is an association list in insertion
  order, as a Python dictionary is; \<open>offset_to_lineno\<close> is the table handed to
  \<open>__init__\<close>.
\<close>

record ('v, 'd, 's) state =
  event_objs :: "('v, 'd, 's) Event list"
  dict_objs :: "(string \<rightharpoonup> int) list"
  filename :: string
  offset_to_lineno :: "nat \<rightharpoonup> int"
  raw_events :: "(string \<times> ref list) list"
  snapshots :: "Snapshot list"
  latest_snapshot :: Snapshot

definition INITIAL_STATE :: int where
  "INITIAL_STATE = - 1"

section \<open>Dictionaries with a default\<close>

text \<open>
  \<open>defaultdict(list).__getitem__\<close>: a missing key is inserted with the value \<open>[]\<close>,
  which is returned. The dictionary after the read is part of the result.
\<close>

definition getitem ::
  "(string \<times> 'a list) list \<Rightarrow> string \<Rightarrow> 'a list \<times> (string \<times> 'a list) list" where
  "getitem d name =
     (case map_of d name of
        Some events \<Rightarrow> (events, d)
      | None \<Rightarrow> ([], AList.update name [] d))"

text \<open>\<open>d[name].append(x)\<close> on a \<open>defaultdict(list)\<close>.\<close>

definition append_item ::
  "(string \<times> 'a list) list \<Rightarrow> string \<Rightarrow> 'a \<Rightarrow> (string \<times> 'a list) list" where
  "append_item d name x =
     (let (events, d') = getitem d name in AList.update name (events @ [x]) d')"

text \<open>\<open>defaultdict(lambda: _INITIAL_STATE).__getitem__\<close>, the value read.\<close>

definition pointer_of :: "(string \<rightharpoonup> int) \<Rightarrow> string \<Rightarrow> int" where
  "pointer_of p name = (case p name of None \<Rightarrow> INITIAL_STATE | Some i \<Rightarrow> i)"

text \<open>\<open>p[name] += 1\<close> on such a dictionary.\<close>

definition increment :: "(string \<rightharpoonup> int) \<Rightarrow> string \<Rightarrow> (string \<rightharpoonup> int)" where
  "increment p name = p(name \<mapsto> pointer_of p name + 1)"

text \<open>\<open>_EventsDict.__contains__\<close>. \<open>self[name]\<close> is a read of the \<open>defaultdict\<close>.\<close>

definition EventsDict_contains ::
  "('v, 'd, 's) Event list \<Rightarrow> (string \<times> ref list) list \<Rightarrow> string
     \<Rightarrow> bool \<times> (string \<times> ref list) list" where
  "EventsDict_contains objs d name =
     (let (events, d') = getitem d name in
      if events = [] then (False, d')
      else if isinstance_Deletion (objs ! last events) then (False, d')
      else (True, d'))"

section \<open>The methods of \<open>Frame\<close>\<close>

text \<open>\<open>Frame.__init__\<close>: one seed snapshot, whose dictionary is empty.\<close>

definition Frame_init :: "string \<Rightarrow> (nat \<rightharpoonup> int) \<Rightarrow> ('v, 'd, 's) state" where
  "Frame_init fn o2l =
     (let seed = \<lparr>events_pointer = 0, location = None\<rparr> in
      \<lparr>event_objs = [], dict_objs = [Map.empty], filename = fn, offset_to_lineno = o2l,
       raw_events = [], snapshots = [seed], latest_snapshot = seed\<rparr>)"

text \<open>A constructor call of an event class: the new object gets the next address.\<close>

definition new_event ::
  "('v, 'd, 's) state \<Rightarrow> ('v, 'd, 's) Event \<Rightarrow> ref \<times> ('v, 'd, 's) state" where
  "new_event s e = (length (event_objs s), s\<lparr>event_objs := event_objs s @ [e]\<rparr>)"

text \<open>\<open>Frame._knows\<close>.\<close>

definition knows :: "('v, 'd, 's) state \<Rightarrow> string \<Rightarrow> bool \<times> ('v, 'd, 's) state" where
  "knows s name =
     (let (b, d) = EventsDict_contains (event_objs s) (raw_events s) name
      in (b, s\<lparr>raw_events := d\<rparr>))"

text \<open>
  \<open>Frame._add_new_event\<close>. The argument is a reference to the event object. Both
  assertions come before the first write; \<open>self.snapshots[-1]\<close> raises \<open>IndexError\<close> on
  an empty list, after the event has been appended.
\<close>

definition add_new_event ::
  "('v, 'd, 's) state \<Rightarrow> ref \<Rightarrow> (exn + unit) \<times> ('v, 'd, 's) state" where
  "add_new_event s event =
     (let e = event_objs s ! event in
      if target e = [] then (Inl AssertionError, s)
      else
        let (events, d1) = getitem (raw_events s) (target e);
            s1 = s\<lparr>raw_events := d1\<rparr>
        in if events \<noteq> [] \<and> isinstance_InitialValue e then (Inl AssertionError, s1)
           else
             let s2 = s1\<lparr>raw_events := append_item (raw_events s1) (target e) event\<rparr>
             in if snapshots s2 = [] then (Inl IndexError, s2)
                else
                  let new_events_pointer = length (dict_objs s2);
                      copied = dict_objs s2 ! events_pointer (last (snapshots s2));
                      s3 = s2\<lparr>dict_objs := dict_objs s2 @ [copied]\<rparr>;
                      s4 = s3\<lparr>dict_objs := (dict_objs s3)
                             [new_events_pointer :=
                                increment (dict_objs s3 ! new_events_pointer) (target e)]\<rparr>;
                      new_snapshot = \<lparr>events_pointer = new_events_pointer, location = None\<rparr>
                  in (Inr (), s4\<lparr>latest_snapshot := new_snapshot,
                                  snapshots := snapshots s4 @ [new_snapshot]\<rparr>))"

text \<open>
  \<open>Frame._latest_value_of\<close>. \<open>apply_delta v d\<close> stands for \<open>v + d\<close> of the external codec
  (\<open>deepdiff.Delta\<close>). The loop over \<open>relevant_events[1:]\<close> is \<open>fold_mutations\<close>.
\<close>

fun fold_mutations ::
  "('v \<Rightarrow> 'd \<Rightarrow> 'v) \<Rightarrow> ('v, 'd, 's) Event list \<Rightarrow> 'v \<Rightarrow> ref list \<Rightarrow> exn + 'v" where
  "fold_mutations apply_delta objs v [] = Inr v"
| "fold_mutations apply_delta objs v (mutation # rest) =
     (case objs ! mutation of
        Mutation t d src vo l f \<Rightarrow> fold_mutations apply_delta objs (apply_delta v d) rest
      | _ \<Rightarrow> Inl AssertionError)"

definition latest_value_of ::
  "('v \<Rightarrow> 'd \<Rightarrow> 'v) \<Rightarrow> ('v, 'd, 's) state \<Rightarrow> string \<Rightarrow> (exn + 'v) \<times> ('v, 'd, 's) state" where
  "latest_value_of apply_delta s name =
     (let (known, d1) = EventsDict_contains (event_objs s) (raw_events s) name;
          s1 = s\<lparr>raw_events := d1\<rparr>
      in if \<not> known then (Inl AttributeError, s1)
         else
           let (relevant_events, d2) = getitem (raw_events s1) name;
               s2 = s1\<lparr>raw_events := d2\<rparr>
           in case relevant_events of
                [] \<Rightarrow> (Inl IndexError, s2)
              | first # rest \<Rightarrow>
                  (case event_objs s2 ! first of
                     InitialValue t v l f \<Rightarrow> (fold_mutations apply_delta (event_objs s2) v rest, s2)
                   | Creation t v src l f \<Rightarrow> (fold_mutations apply_delta (event_objs s2) v rest, s2)
                   | _ \<Rightarrow> (Inl AssertionError, s2)))"

text \<open>
  \<open>Frame.log_initial_value_events\<close>. The live frame is outside the model: \<open>ignored\<close> is
  the test for a \<open>Tracer\<close> or a builtin, \<open>name_exist\<close> is
  \<open>utils.name_exist_in_frame(target, frame)\<close>, \<open>v\<close> is the deep copy of the target's live
  value, \<open>offset\<close> is \<open>instr.offset\<close>. Keyword arguments are evaluated in the order
  written, so the table lookup (\<open>KeyError\<close> on a missing offset) comes before the event
  is constructed.
\<close>

definition log_initial_value_events ::
  "('v, 'd, 's) state \<Rightarrow> bool \<Rightarrow> bool \<Rightarrow> string \<Rightarrow> 'v \<Rightarrow> nat
     \<Rightarrow> (exn + unit) \<times> ('v, 'd, 's) state" where
  "log_initial_value_events s ignored name_exist tgt v offset =
     (if ignored then (Inr (), s)
      else if \<not> name_exist then (Inr (), s)
      else
        let (known, s1) = knows s tgt
        in if known then (Inr (), s1)
           else
             (case offset_to_lineno s1 offset of
                None \<Rightarrow> (Inl KeyError, s1)
              | Some lineno \<Rightarrow>
                  let (event, s2) = new_event s1 (InitialValue tgt v lineno (filename s1))
                  in add_new_event s2 event))"

text \<open>
  \<open>Frame.log_events\<close>. \<open>event_info\<close> is what the value stack returned (\<open>None\<close> when the
  instruction changed nothing), \<open>v\<close> the live value of the target, \<open>diff old new\<close> stands
  for \<open>Delta(diff=DeepDiff(old, new))\<close>.
\<close>

definition log_events ::
  "('v \<Rightarrow> 'v \<Rightarrow> 'd) \<Rightarrow> ('v \<Rightarrow> 'd \<Rightarrow> 'v) \<Rightarrow> ('v, 'd, 's) state \<Rightarrow> 's EventInfo option \<Rightarrow> 'v \<Rightarrow> nat
     \<Rightarrow> (exn + unit) \<times> ('v, 'd, 's) state" where
  "log_events diff apply_delta s event_info v offset =
     (case event_info of
        None \<Rightarrow> (Inr (), s)
      | Some info \<Rightarrow>
          let tgt = info_target info in
          (case info_type info of
             EventType_Mutation \<Rightarrow>
               let (known, s1) = knows s tgt
               in if known then
                    (case offset_to_lineno s1 offset of
                       None \<Rightarrow> (Inl KeyError, s1)
                     | Some lineno \<Rightarrow>
                         (case latest_value_of apply_delta s1 tgt of
                            (Inl err, s2) \<Rightarrow> (Inl err, s2)
                          | (Inr old, s2) \<Rightarrow>
                              let (event, s3) =
                                    new_event s2
                                      (Mutation tgt (diff old v) (info_sources info) None
                                         lineno (filename s2))
                              in add_new_event s3 event))
                  else
                    (case offset_to_lineno s1 offset of
                       None \<Rightarrow> (Inl KeyError, s1)
                     | Some lineno \<Rightarrow>
                         let (event, s2) =
                               new_event s1
                                 (Creation tgt v (info_sources info) lineno (filename s1))
                         in add_new_event s2 event)
           | EventType_Deletion \<Rightarrow>
               (case offset_to_lineno s offset of
                  None \<Rightarrow> (Inl KeyError, s)
                | Some lineno \<Rightarrow>
                    let (event, s1) = new_event s (Deletion tgt lineno (filename s))
                    in add_new_event s1 event)))"

text \<open>
  \<open>Frame.accumulated_events\<close>. \<open>result\<close> is a \<open>defaultdict(list)\<close> local to the call.
  The inner loop runs over the events of one name. For a \<open>Mutation\<close>, \<open>copy(raw_event)\<close>
  makes a new object; the right-hand side \<open>result[name][-1].value + raw_event.delta\<close> is
  evaluated next (\<open>IndexError\<close> when \<open>result[name]\<close> is empty, \<open>AttributeError\<close> when the
  previous entry has no \<open>value\<close>), then the attribute of the copy is assigned. An exception
  drops \<open>result\<close>; the store is returned in every case.
\<close>

fun accumulate_name ::
  "('v \<Rightarrow> 'd \<Rightarrow> 'v) \<Rightarrow> string \<Rightarrow> ('v, 'd, 's) Event list \<Rightarrow> (string \<times> ref list) list \<Rightarrow> ref list
     \<Rightarrow> (exn + (string \<times> ref list) list) \<times> ('v, 'd, 's) Event list" where
  "accumulate_name apply_delta name objs result [] = (Inr result, objs)"
| "accumulate_name apply_delta name objs result (raw_event # rest) =
     (case objs ! raw_event of
        Mutation t d src vo l f \<Rightarrow>
          let event = length objs;
              objs1 = objs @ [objs ! raw_event];
              (entries, result1) = getitem result name
          in if entries = [] then (Inl IndexError, objs1)
             else
               (case getattr_value (objs1 ! last entries) of
                  Inl err \<Rightarrow> (Inl err, objs1)
                | Inr prev \<Rightarrow>
                    let objs2 = objs1[event := Mutation t d src (Some (apply_delta prev d)) l f]
                    in accumulate_name apply_delta name objs2 (append_item result1 name event) rest)
      | _ \<Rightarrow> accumulate_name apply_delta name objs (append_item result name raw_event) rest)"

fun accumulate_items ::
  "('v \<Rightarrow> 'd \<Rightarrow> 'v) \<Rightarrow> ('v, 'd, 's) Event list \<Rightarrow> (string \<times> ref list) list
     \<Rightarrow> (string \<times> ref list) list
     \<Rightarrow> (exn + (string \<times> ref list) list) \<times> ('v, 'd, 's) Event list" where
  "accumulate_items apply_delta objs result [] = (Inr result, objs)"
| "accumulate_items apply_delta objs result ((name, raw) # items) =
     (case accumulate_name apply_delta name objs result raw of
        (Inl err, objs') \<Rightarrow> (Inl err, objs')
      | (Inr result', objs') \<Rightarrow> accumulate_items apply_delta objs' result' items)"

definition accumulated_events ::
  "('v \<Rightarrow> 'd \<Rightarrow> 'v) \<Rightarrow> ('v, 'd, 's) state
     \<Rightarrow> (exn + (string \<times> ref list) list) \<times> ('v, 'd, 's) state" where
  "accumulated_events apply_delta s =
     (case accumulate_items apply_delta (event_objs s) [] (raw_events s) of
        (r, objs') \<Rightarrow> (r, s\<lparr>event_objs := objs'\<rparr>))"

text \<open>
  \<open>Frame.get_tracing_result\<close>: the body of the method is its docstring, so a call
  returns \<open>None\<close>.
\<close>

definition get_tracing_result ::
  "('v, 'd, 's) state \<Rightarrow> (string \<times> string list) list option" where
  "get_tracing_result s = None"

section \<open>Reading a state\<close>

text \<open>
  The list stored for a name in a \<open>defaultdict(list)\<close> (for \<open>raw_events\<close>, the
  references recorded for the name), and the events they point to.
\<close>

definition refs_of :: "(string \<times> 'a list) list \<Rightarrow> string \<Rightarrow> 'a list" where
  "refs_of d name = (case map_of d name of None \<Rightarrow> [] | Some events \<Rightarrow> events)"

definition timeline :: "('v, 'd, 's) state \<Rightarrow> string \<Rightarrow> ('v, 'd, 's) Event list" where
  "timeline s name = map (\<lambda>r. event_objs s ! r) (refs_of (raw_events s) name)"

text \<open>The pointer that a snapshot holds for a name.\<close>

definition pointer :: "('v, 'd, 's) state \<Rightarrow> Snapshot \<Rightarrow> string \<Rightarrow> int" where
  "pointer s snap name = pointer_of (dict_objs s ! events_pointer snap) name"

text \<open>
  The states of a frame: \<open>__init__\<close> followed by any calls of the methods, interleaved
  with constructions of event objects. A call that raises leaves a state too.
\<close>

inductive reachable ::
  "('v \<Rightarrow> 'v \<Rightarrow> 'd) \<Rightarrow> ('v \<Rightarrow> 'd \<Rightarrow> 'v) \<Rightarrow> ('v, 'd, 's) state \<Rightarrow> bool"
  for diff :: "'v \<Rightarrow> 'v \<Rightarrow> 'd" and apply_delta :: "'v \<Rightarrow> 'd \<Rightarrow> 'v" where
  r_init: "reachable diff apply_delta (Frame_init fn o2l)"
| r_new_event: "reachable diff apply_delta s \<Longrightarrow> reachable diff apply_delta (snd (new_event s e))"
| r_add_new_event:
    "reachable diff apply_delta s \<Longrightarrow> r < length (event_objs s)
       \<Longrightarrow> reachable diff apply_delta (snd (add_new_event s r))"
| r_knows: "reachable diff apply_delta s \<Longrightarrow> reachable diff apply_delta (snd (knows s name))"
| r_latest_value_of:
    "reachable diff apply_delta s \<Longrightarrow> reachable diff apply_delta (snd (latest_value_of apply_delta s name))"
| r_log_initial_value_events:
    "reachable diff apply_delta s
       \<Longrightarrow> reachable diff apply_delta (snd (log_initial_value_events s ignored name_exist tgt v offset))"
| r_log_events:
    "reachable diff apply_delta s
       \<Longrightarrow> reachable diff apply_delta (snd (log_events diff apply_delta s event_info v offset))"
| r_accumulated_events:
    "reachable diff apply_delta s \<Longrightarrow> reachable diff apply_delta (snd (accumulated_events apply_delta s))"

section \<open>Relations between states, and invariants\<close>

text \<open>
  The state after a successful \<open>_add_new_event\<close>: the reference is at the end of the
  target's list, a copy of the last snapshot's dictionary with the target's entry
  incremented is in the store, and a snapshot that refers to it is the latest one.
\<close>

definition appended :: "('v, 'd, 's) state \<Rightarrow> ref \<Rightarrow> ('v, 'd, 's) state" where
  "appended s r =
     (let tgt = target (event_objs s ! r);
          new_snapshot = \<lparr>events_pointer = length (dict_objs s), location = None\<rparr>
      in s\<lparr>raw_events := append_item (snd (getitem (raw_events s) tgt)) tgt r,
           dict_objs :=
             dict_objs s @ [increment (dict_objs s ! events_pointer (last (snapshots s))) tgt],
           latest_snapshot := new_snapshot,
           snapshots := snapshots s @ [new_snapshot]\<rparr>)"

text \<open>The number of events in all timelines.\<close>

definition total_events :: "('v, 'd, 's) state \<Rightarrow> nat" where
  "total_events s = sum_list (map (\<lambda>item. length (snd item)) (raw_events s))"

text \<open>
  Well-formedness of the references of a state: keys of \<open>raw_events\<close> are unique, event
  references and dictionary references point into the stores, and there is a snapshot.
\<close>

definition wf_state :: "('v, 'd, 's) state \<Rightarrow> bool" where
  "wf_state s \<longleftrightarrow>
     distinct (map fst (raw_events s)) \<and>
     (\<forall>name. \<forall>r \<in> set (refs_of (raw_events s) name). r < length (event_objs s)) \<and>
     snapshots s \<noteq> [] \<and>
     (\<forall>snap \<in> set (snapshots s). events_pointer snap < length (dict_objs s))"

text \<open>
  A step that records nothing: objects may have been added to the event store and keys
  with an empty list to \<open>raw_events\<close>; every timeline, every dictionary and every
  snapshot is as before.
\<close>

definition records_nothing :: "('v, 'd, 's) state \<Rightarrow> ('v, 'd, 's) state \<Rightarrow> bool" where
  "records_nothing s s' \<longleftrightarrow>
     take (length (event_objs s)) (event_objs s') = event_objs s \<and>
     length (event_objs s) \<le> length (event_objs s') \<and>
     dict_objs s' = dict_objs s \<and>
     snapshots s' = snapshots s \<and>
     latest_snapshot s' = latest_snapshot s \<and>
     filename s' = filename s \<and>
     offset_to_lineno s' = offset_to_lineno s \<and>
     (\<forall>name. refs_of (raw_events s') name = refs_of (raw_events s) name) \<and>
     (distinct (map fst (raw_events s)) \<longrightarrow> distinct (map fst (raw_events s'))) \<and>
     total_events s' = total_events s"

text \<open>The cross-structure invariant of a frame.\<close>

definition cross_structure_inv :: "('v, 'd, 's) state \<Rightarrow> bool" where
  "cross_structure_inv s \<longleftrightarrow>
     snapshots s \<noteq> [] \<and>
     latest_snapshot s = last (snapshots s) \<and>
     length (snapshots s) = 1 + total_events s \<and>
     (\<forall>name. pointer s (latest_snapshot s) name =
               int (length (refs_of (raw_events s) name)) - 1)"

text \<open>
  Two snapshots are one step apart when exactly one name has different pointers in them,
  and the second pointer of that name is the first plus one.
\<close>

definition one_step :: "('v, 'd, 's) state \<Rightarrow> Snapshot \<Rightarrow> Snapshot \<Rightarrow> bool" where
  "one_step s a b \<longleftrightarrow>
     (\<exists>name. pointer s b name = pointer s a name + 1 \<and>
             (\<forall>n. (pointer s b n \<noteq> pointer s a n) = (n = name)))"

definition monotone_snapshots :: "('v, 'd, 's) state \<Rightarrow> bool" where
  "monotone_snapshots s \<longleftrightarrow>
     (\<forall>name. pointer s (snapshots s ! 0) name = INITIAL_STATE) \<and>
     (\<forall>i. Suc i < length (snapshots s) \<longrightarrow> one_step s (snapshots s ! i) (snapshots s ! Suc i))"

text \<open>The invariant of the states of a frame.\<close>

definition frame_inv :: "('v, 'd, 's) state \<Rightarrow> bool" where
  "frame_inv s \<longleftrightarrow> wf_state s \<and> cross_structure_inv s \<and> monotone_snapshots s"

text \<open>
  Every snapshot of \<open>s\<close> is at the same place in the snapshot list of \<open>s'\<close>, with the
  same location tag, and the dictionary it refers to has the same contents.
\<close>

definition snapshots_kept :: "('v, 'd, 's) state \<Rightarrow> ('v, 'd, 's) state \<Rightarrow> bool" where
  "snapshots_kept s s' \<longleftrightarrow>
     (\<forall>i < length (snapshots s).
        i < length (snapshots s') \<and>
        snapshots s' ! i = snapshots s ! i \<and>
        dict_objs s' ! events_pointer (snapshots s ! i)
          = dict_objs s ! events_pointer (snapshots s ! i))"

text \<open>
  The result of a call records the event \<open>e\<close>: the call returns normally, \<open>e\<close> is at the
  end of its target's timeline, every other timeline is as in \<open>s\<close>, and there is one
  more snapshot.
\<close>

definition records ::
  "('v, 'd, 's) state \<Rightarrow> (exn + unit) \<times> ('v, 'd, 's) state \<Rightarrow> ('v, 'd, 's) Event \<Rightarrow> bool" where
  "records s result e \<longleftrightarrow>
     fst result = Inr () \<and>
     timeline (snd result) (target e) = timeline s (target e) @ [e] \<and>
     (\<forall>name. name \<noteq> target e \<longrightarrow> timeline (snd result) name = timeline s name) \<and>
     length (snapshots (snd result)) = length (snapshots s) + 1"

section \<open>The contents of the accumulated view\<close>

text \<open>
  The two loops of \<open>accumulated_events\<close> once more, on lists of events instead of lists
  of references: what the loops compute when events are read as values. The store-passing
  loops above are compared with them, to show that the view depends on the contents of
  the persisted events only.
\<close>

fun accumulate_name_values ::
  "('v \<Rightarrow> 'd \<Rightarrow> 'v) \<Rightarrow> string \<Rightarrow> (string \<times> ('v, 'd, 's) Event list) list
     \<Rightarrow> ('v, 'd, 's) Event list \<Rightarrow> exn + (string \<times> ('v, 'd, 's) Event list) list" where
  "accumulate_name_values apply_delta name result [] = Inr result"
| "accumulate_name_values apply_delta name result (raw_event # rest) =
     (case raw_event of
        Mutation t d src vo l f \<Rightarrow>
          let (entries, result1) = getitem result name
          in if entries = [] then Inl IndexError
             else
               (case getattr_value (last entries) of
                  Inl err \<Rightarrow> Inl err
                | Inr prev \<Rightarrow>
                    accumulate_name_values apply_delta name
                      (append_item result1 name (Mutation t d src (Some (apply_delta prev d)) l f))
                      rest)
      | _ \<Rightarrow> accumulate_name_values apply_delta name (append_item result name raw_event) rest)"

fun accumulate_items_values ::
  "('v \<Rightarrow> 'd \<Rightarrow> 'v) \<Rightarrow> (string \<times> ('v, 'd, 's) Event list) list
     \<Rightarrow> (string \<times> ('v, 'd, 's) Event list) list
     \<Rightarrow> exn + (string \<times> ('v, 'd, 's) Event list) list" where
  "accumulate_items_values apply_delta result [] = Inr result"
| "accumulate_items_values apply_delta result ((name, raw) # items) =
     (case accumulate_name_values apply_delta name result raw of
        Inl err \<Rightarrow> Inl err
      | Inr result' \<Rightarrow> accumulate_items_values apply_delta result' items)"

text \<open>
  The contents of a dictionary of references in a store, and of the result of
  \<open>accumulated_events\<close>: two results are identical when they are the same exception or
  have the same keys, in the same order, with events of equal contents.
\<close>

definition deref_view ::
  "('v, 'd, 's) Event list \<Rightarrow> (string \<times> ref list) list
     \<Rightarrow> (string \<times> ('v, 'd, 's) Event list) list" where
  "deref_view objs d = map (\<lambda>item. (fst item, map (\<lambda>r. objs ! r) (snd item))) d"

definition view_of ::
  "('v, 'd, 's) Event list \<Rightarrow> exn + (string \<times> ref list) list
     \<Rightarrow> exn + (string \<times> ('v, 'd, 's) Event list) list" where
  "view_of objs res = (case res of Inl err \<Rightarrow> Inl err | Inr result \<Rightarrow> Inr (deref_view objs result))"

text \<open>Every reference of a dictionary points into the store.\<close>

definition valid_refs :: "('v, 'd, 's) Event list \<Rightarrow> (string \<times> ref list) list \<Rightarrow> bool" where
  "valid_refs objs d \<longleftrightarrow> (\<forall>item \<in> set d. \<forall>r \<in> set (snd item). r < length objs)"

text \<open>
  The entries of the view for one name, against the raw references of that name, as the
  docstring of \<open>accumulated_events\<close> describes them. \<open>objs\<close> is the store before the
  call, \<open>objs'\<close> the store after it, \<open>prev\<close> the entry before. An event that is not a
  \<open>Mutation\<close> is kept: the entry is the raw reference itself. For a \<open>Mutation\<close> the
  entry is a new object (its address is not in \<open>objs\<close>), which differs from the raw
  event in \<open>value\<close> only, and its value is the previous entry's value with the delta
  applied.
\<close>

fun entries_ok ::
  "('v \<Rightarrow> 'd \<Rightarrow> 'v) \<Rightarrow> ('v, 'd, 's) Event list \<Rightarrow> ('v, 'd, 's) Event list \<Rightarrow> ref option
     \<Rightarrow> ref list \<Rightarrow> ref list \<Rightarrow> bool" where
  "entries_ok apply_delta objs objs' prev [] [] = True"
| "entries_ok apply_delta objs objs' prev (r # raw) (e # entries) =
     ((case objs ! r of
         Mutation t d src vo l f \<Rightarrow>
           length objs \<le> e \<and> e < length objs' \<and>
           (case prev of
              None \<Rightarrow> False
            | Some p \<Rightarrow>
                (case getattr_value (objs' ! p) of
                   Inl err \<Rightarrow> False
                 | Inr pv \<Rightarrow> objs' ! e = Mutation t d src (Some (apply_delta pv d)) l f))
       | _ \<Rightarrow> e = r)
      \<and> entries_ok apply_delta objs objs' (Some e) raw entries)"
| "entries_ok apply_delta objs objs' prev [] (e # entries) = False"
| "entries_ok apply_delta objs objs' prev (r # raw) [] = False"

text \<open>The last entry of a list, if there is one.\<close>

definition last_entry :: "ref list \<Rightarrow> ref option" where
  "last_entry entries = (if entries = [] then None else Some (last entries))"

section \<open>Concrete frames\<close>

text \<open>
  A codec on strings in which a delta is the new value, a line table, and the frame of
  \<open>x = "foo"; y = "bar"; x, y = y, x\<close>, with source references bound to indices.
\<close>

definition example_lines :: "nat \<rightharpoonup> int" where
  "example_lines offset = Some (int offset div 2 + 1)"

definition replace_diff :: "string \<Rightarrow> string \<Rightarrow> string" where
  "replace_diff old new = new"

definition replace_delta :: "string \<Rightarrow> string \<Rightarrow> string" where
  "replace_delta v d = d"

definition fresh_frame :: "(string, string, (string \<times> nat) list) state" where
  "fresh_frame = Frame_init ''swap.py'' example_lines"

definition assignment ::
  "string \<Rightarrow> (string \<times> nat) list \<Rightarrow> (string \<times> nat) list EventInfo option" where
  "assignment tgt srcs =
     Some \<lparr>info_target = tgt, info_type = EventType_Mutation, info_sources = srcs\<rparr>"

definition deletion :: "string \<Rightarrow> (string \<times> nat) list EventInfo option" where
  "deletion tgt =
     Some \<lparr>info_target = tgt, info_type = EventType_Deletion, info_sources = []\<rparr>"

definition created_frame :: "(string, string, (string \<times> nat) list) state" where
  "created_frame =
     (let s1 = snd (log_events replace_diff replace_delta fresh_frame (assignment ''x'' []) ''foo'' 0)
      in snd (log_events replace_diff replace_delta s1 (assignment ''y'' []) ''bar'' 2))"

definition swap_frame :: "(string, string, (string \<times> nat) list) state" where
  "swap_frame =
     (let s3 = snd (log_events replace_diff replace_delta created_frame
                      (assignment ''x'' [(''y'', 0)]) ''bar'' 4)
      in snd (log_events replace_diff replace_delta s3 (assignment ''y'' [(''x'', 0)]) ''foo'' 4))"

text \<open>
  Frames in which an event object has been constructed and not yet added: a
  \<open>Deletion\<close> of \<open>x\<close> and a second \<open>InitialValue\<close> of \<open>x\<close> after \<open>x\<close> and \<open>y\<close>
  were created, and a \<open>Creation\<close> of \<open>x\<close> in a fresh frame.
\<close>

definition pending_deletion :: "(string, string, (string \<times> nat) list) state" where
  "pending_deletion = snd (new_event created_frame (Deletion ''x'' 3 ''swap.py''))"

definition pending_initial :: "(string, string, (string \<times> nat) list) state" where
  "pending_initial = snd (new_event created_frame (InitialValue ''x'' ''foo'' 1 ''swap.py''))"

definition pending_creation :: "(string, string, (string \<times> nat) list) state" where
  "pending_creation = snd (new_event fresh_frame (Creation ''x'' ''foo'' [] 1 ''swap.py''))"

text \<open>The frame of \<open>x = "foo"; y = "bar"; del x; x = "baz"\<close>.\<close>

definition recreated_frame :: "(string, string, (string \<times> nat) list) state" where
  "recreated_frame =
     (let s3 = snd (log_events replace_diff replace_delta created_frame (deletion ''x'') [] 4)
      in snd (log_events replace_diff replace_delta s3 (assignment ''x'' []) ''baz'' 6))"

section \<open>Reads and writes of the dictionaries\<close>

lemma refs_of_getitem_fst: "fst (getitem d name) = refs_of d name"
  by (simp add: getitem_def refs_of_def split: option.splits)

lemma refs_of_getitem_snd: "refs_of (snd (getitem d name)) n = refs_of d n"
  by (simp add: getitem_def refs_of_def AList.update_conv' split: option.splits)

lemma getitem_nonempty_same: "refs_of d name \<noteq> [] \<Longrightarrow> snd (getitem d name) = d"
  by (simp add: getitem_def refs_of_def split: option.splits)

lemma refs_of_append_item:
  "refs_of (append_item d name x) n = (if n = name then refs_of d name @ [x] else refs_of d n)"
  by (simp add: append_item_def getitem_def refs_of_def AList.update_conv'
      split: option.splits prod.splits)

lemma distinct_getitem: "distinct (map fst d) \<Longrightarrow> distinct (map fst (snd (getitem d name)))"
  by (simp add: getitem_def AList.distinct_update split: option.splits)

lemma distinct_append_item:
  "distinct (map fst d) \<Longrightarrow> distinct (map fst (append_item d name x))"
  by (simp add: append_item_def getitem_def AList.distinct_update
      split: option.splits prod.splits)

lemma EventsDict_contains_fst:
  "fst (EventsDict_contains objs d name) =
     (refs_of d name \<noteq> [] \<and> \<not> isinstance_Deletion (objs ! last (refs_of d name)))"
  by (simp add: EventsDict_contains_def getitem_def refs_of_def split: option.splits)

lemma EventsDict_contains_snd:
  "snd (EventsDict_contains objs d name) = snd (getitem d name)"
  by (simp add: EventsDict_contains_def split: prod.splits)

lemma knows_fst:
  "fst (knows s name) =
     (refs_of (raw_events s) name \<noteq> [] \<and>
      \<not> isinstance_Deletion (event_objs s ! last (refs_of (raw_events s) name)))"
  by (simp add: knows_def case_prod_unfold EventsDict_contains_fst)

lemma knows_snd: "snd (knows s name) = s\<lparr>raw_events := snd (getitem (raw_events s) name)\<rparr>"
  by (simp add: knows_def case_prod_unfold EventsDict_contains_snd)

lemma timeline_last:
  "timeline s name \<noteq> [] \<Longrightarrow>
     last (timeline s name) = event_objs s ! last (refs_of (raw_events s) name)"
  by (simp add: timeline_def last_map)

lemma timeline_empty: "(timeline s name = []) = (refs_of (raw_events s) name = [])"
  by (simp add: timeline_def)

section \<open>The three outcomes of \<open>_add_new_event\<close>\<close>

lemma add_new_event_no_target:
  "target (event_objs s ! r) = [] \<Longrightarrow> add_new_event s r = (Inl AssertionError, s)"
  by (simp add: add_new_event_def)

lemma add_new_event_initial_twice:
  assumes "target (event_objs s ! r) \<noteq> []"
    and "refs_of (raw_events s) (target (event_objs s ! r)) \<noteq> []"
    and "isinstance_InitialValue (event_objs s ! r)"
  shows "add_new_event s r = (Inl AssertionError, s)"
proof -
  let ?t = "target (event_objs s ! r)"
  have g: "getitem (raw_events s) ?t = (refs_of (raw_events s) ?t, raw_events s)"
    using assms(2) by (simp add: getitem_def refs_of_def split: option.splits)
  show ?thesis using assms by (simp add: add_new_event_def Let_def g)
qed

lemma add_new_event_ok:
  assumes "target (event_objs s ! r) \<noteq> []"
    and "\<not> (refs_of (raw_events s) (target (event_objs s ! r)) \<noteq> [] \<and>
            isinstance_InitialValue (event_objs s ! r))"
    and "snapshots s \<noteq> []"
  shows "add_new_event s r = (Inr (), appended s r)"
  using assms
  by (simp add: add_new_event_def Let_def case_prod_unfold refs_of_getitem_fst appended_def
      nth_append)

lemma add_new_event_Inr:
  assumes "fst (add_new_event s r) = Inr ()"
  shows "snd (add_new_event s r) = appended s r"
proof -
  have t: "target (event_objs s ! r) \<noteq> []"
    using assms by (auto simp: add_new_event_no_target)
  have i: "\<not> (refs_of (raw_events s) (target (event_objs s ! r)) \<noteq> [] \<and>
            isinstance_InitialValue (event_objs s ! r))"
    using assms t by (auto simp: add_new_event_initial_twice)
  have n: "snapshots s \<noteq> []"
    using assms t i
    by (auto simp: add_new_event_def Let_def case_prod_unfold refs_of_getitem_fst
        split: if_splits)
  show ?thesis by (simp add: add_new_event_ok[OF t i n])
qed

lemma refs_of_appended:
  "refs_of (raw_events (appended s r)) n =
     (if n = target (event_objs s ! r) then refs_of (raw_events s) n @ [r]
      else refs_of (raw_events s) n)"
  by (simp add: appended_def Let_def refs_of_append_item refs_of_getitem_snd)

lemma event_objs_appended: "event_objs (appended s r) = event_objs s"
  by (simp add: appended_def Let_def)

section \<open>Membership\<close>

text \<open>
  C4. For every identifier, \<open>name in raw_events\<close> (\<open>_EventsDict.__contains__\<close>, which
  \<open>Frame._knows\<close> returns) is false if the identifier has no recorded events or if its
  most recent event is a \<open>Deletion\<close>, and true otherwise. In particular, after a
  \<open>Deletion\<close> for \<open>x\<close> has been appended, the answer for \<open>x\<close> is false. The answer is
  a Boolean: the operation has no exceptional result.
\<close>

theorem contains_tombstone:
  "fst (knows s name) =
     (timeline s name \<noteq> [] \<and> \<not> isinstance_Deletion (last (timeline s name)))
   \<and> fst (EventsDict_contains (event_objs s) (raw_events s) name) = fst (knows s name)
   \<and> (event_objs s ! r = Deletion x l f \<longrightarrow> fst (add_new_event s r) = Inr ()
        \<longrightarrow> fst (knows (snd (add_new_event s r)) x) = False)"
proof -
  have a: "fst (knows s name) =
      (timeline s name \<noteq> [] \<and> \<not> isinstance_Deletion (last (timeline s name)))"
    by (auto simp: knows_fst timeline_last timeline_empty)
  have b: "fst (EventsDict_contains (event_objs s) (raw_events s) name) = fst (knows s name)"
    by (simp add: knows_fst EventsDict_contains_fst)
  have c: "fst (knows (snd (add_new_event s r)) x) = False"
    if d: "event_objs s ! r = Deletion x l f" and ok: "fst (add_new_event s r) = Inr ()"
  proof -
    have "snd (add_new_event s r) = appended s r" using ok by (rule add_new_event_Inr)
    then show ?thesis using d
      by (simp add: knows_fst refs_of_appended event_objs_appended)
  qed
  from a b c show ?thesis by blast
qed

theorem contains_tombstone_witness:
  "event_objs (snd (new_event created_frame (Deletion ''x'' 3 ''swap.py''))) ! 2
     = Deletion ''x'' 3 ''swap.py''
   \<and> fst (add_new_event (snd (new_event created_frame (Deletion ''x'' 3 ''swap.py''))) 2)
     = Inr ()
   \<and> fst (knows (snd (add_new_event
                        (snd (new_event created_frame (Deletion ''x'' 3 ''swap.py''))) 2))
            ''x'') = False
   \<and> fst (knows created_frame ''x'') = True"
proof -
  let ?s = "snd (new_event created_frame (Deletion ''x'' 3 ''swap.py''))"
  have a: "event_objs ?s ! 2 = Deletion ''x'' 3 ''swap.py''" by code_simp
  have b: "fst (add_new_event ?s 2) = Inr ()" by code_simp
  have d: "fst (knows created_frame ''x'') = True" by code_simp
  from contains_tombstone[of ?s "''x''" 2 "''x''" 3 "''swap.py''"] a b
  have c: "fst (knows (snd (add_new_event ?s 2)) ''x'') = False" by blast
  from a b c d show ?thesis by blast
qed

section \<open>Tracing\<close>

text \<open>
  C1. In the swap scenario the frame holds \<open>Creation(x)\<close>, \<open>Mutation(x)\<close> with the
  source \<open>(y, 0)\<close>, \<open>Creation(y)\<close> and \<open>Mutation(y)\<close> with the source \<open>(x, 0)\<close>. The
  claim is that tracing returns \<open>{Creation(y)}\<close> for \<open>Mutation(x)\<close> and
  \<open>{Creation(x)}\<close> for \<open>Mutation(y)\<close>, as the docstring of \<open>get_tracing_result\<close> says.
  The method returns \<open>None\<close> on that frame.
\<close>

theorem get_tracing_result_swap:
  "timeline swap_frame ''x'' =
     [Creation ''x'' ''foo'' [] 1 ''swap.py'',
      Mutation ''x'' ''bar'' [(''y'', 0)] None 3 ''swap.py'']
   \<and> timeline swap_frame ''y'' =
     [Creation ''y'' ''bar'' [] 2 ''swap.py'',
      Mutation ''y'' ''foo'' [(''x'', 0)] None 3 ''swap.py'']
   \<and> get_tracing_result swap_frame = None"
  by code_simp

section \<open>Steps that record nothing\<close>

lemma update_missing: "map_of d k = None \<Longrightarrow> AList.update k v d = d @ [(k, v)]"
  by (induction d) (auto split: if_splits)

lemma total_getitem:
  "sum_list (map (\<lambda>item. length (snd item)) (snd (getitem d name)))
     = sum_list (map (\<lambda>item. length (snd item)) d)"
  by (simp add: getitem_def update_missing split: option.splits)

lemma total_update:
  "map_of d k = Some old \<Longrightarrow>
     sum_list (map (\<lambda>item. length (snd item)) (AList.update k (old @ [x]) d))
       = Suc (sum_list (map (\<lambda>item. length (snd item)) d))"
  by (induction d) (auto split: if_splits)

lemma total_append_item:
  "sum_list (map (\<lambda>item. length (snd item)) (append_item d name x))
     = Suc (sum_list (map (\<lambda>item. length (snd item)) d))"
proof (cases "map_of d name")
  case None
  then have "append_item d name x = AList.update name [x] d"
    by (simp add: append_item_def getitem_def)
  with None show ?thesis by (simp add: update_missing)
next
  case (Some old)
  then show ?thesis
    by (simp add: append_item_def getitem_def total_update)
qed

lemma records_nothing_refl: "records_nothing s s"
  by (simp add: records_nothing_def)

lemma records_nothing_trans:
  assumes "records_nothing s s'" and "records_nothing s' s''"
  shows "records_nothing s s''"
proof -
  have e1: "take (length (event_objs s)) (event_objs s') = event_objs s"
    and le: "length (event_objs s) \<le> length (event_objs s')"
    and e2: "take (length (event_objs s')) (event_objs s'') = event_objs s'"
    using assms by (simp_all add: records_nothing_def)
  have "take (length (event_objs s)) (take (length (event_objs s')) (event_objs s''))
        = take (length (event_objs s)) (event_objs s'')"
    using le by (simp add: min_def)
  then have "take (length (event_objs s)) (event_objs s'') = event_objs s"
    using e1 e2 by simp
  then show ?thesis using assms by (simp add: records_nothing_def)
qed

lemma records_nothing_getitem:
  "records_nothing s (s\<lparr>raw_events := snd (getitem (raw_events s) name)\<rparr>)"
  by (simp add: records_nothing_def refs_of_getitem_snd distinct_getitem total_events_def
      total_getitem)

lemma records_nothing_knows: "records_nothing s (snd (knows s name))"
  by (simp add: knows_snd records_nothing_getitem)

lemma records_nothing_new_event: "records_nothing s (snd (new_event s e))"
  by (simp add: new_event_def records_nothing_def total_events_def)

lemma latest_value_of_snd:
  "snd (latest_value_of apply_delta s name)
     = s\<lparr>raw_events := snd (getitem (raw_events s) name)\<rparr>"
proof -
  let ?d1 = "snd (getitem (raw_events s) name)"
  have "snd (getitem ?d1 name) = ?d1"
    by (simp add: getitem_def AList.update_conv' split: option.splits)
  then show ?thesis
    by (simp add: latest_value_of_def Let_def case_prod_unfold EventsDict_contains_snd
        split: list.splits Event.splits)
qed

lemma records_nothing_latest_value_of:
  "records_nothing s (snd (latest_value_of apply_delta s name))"
  by (simp add: latest_value_of_snd records_nothing_getitem)

lemma latest_value_of_not_known:
  "\<not> fst (knows s name) \<Longrightarrow> fst (latest_value_of apply_delta s name) = Inl AttributeError"
  by (simp add: latest_value_of_def Let_def case_prod_unfold knows_fst EventsDict_contains_fst)

section \<open>The latest value of an unknown identifier\<close>

text \<open>
  C5, as the claim states it: the query for an identifier with no recorded events raises
  \<open>LookupError\<close>. On a fresh frame, \<open>_latest_value_of("nonexistent")\<close> raises
  \<open>AttributeError\<close>, which is not a \<open>LookupError\<close>.
\<close>

theorem latest_value_of_unknown_counterexample:
  "fst (latest_value_of replace_delta fresh_frame ''nonexistent'') = Inl AttributeError
   \<and> \<not> isinstance_LookupError AttributeError"
  by code_simp

text \<open>
  C5, amended: the query for an identifier with no recorded events raises
  \<open>AttributeError\<close> (which is not a \<open>LookupError\<close>) at the point of the query; nothing
  is recorded by the failed query, so there is no retry and no recovery.
\<close>

theorem latest_value_of_unknown:
  "timeline s name = [] \<longrightarrow>
     fst (latest_value_of apply_delta s name) = Inl AttributeError
     \<and> \<not> isinstance_LookupError AttributeError
     \<and> records_nothing s (snd (latest_value_of apply_delta s name))"
  by (simp add: latest_value_of_not_known knows_fst timeline_empty
      records_nothing_latest_value_of)

theorem latest_value_of_unknown_witness:
  "timeline fresh_frame ''nonexistent'' = []
   \<and> fst (latest_value_of replace_delta fresh_frame ''nonexistent'') = Inl AttributeError
   \<and> records_nothing fresh_frame
       (snd (latest_value_of replace_delta fresh_frame ''nonexistent''))"
proof -
  have a: "timeline fresh_frame ''nonexistent'' = []" by code_simp
  from latest_value_of_unknown[of fresh_frame "''nonexistent''" replace_delta] a
  show ?thesis by blast
qed

section \<open>The invariant\<close>

lemma add_new_event_cases:
  assumes "snapshots s \<noteq> []"
  shows "add_new_event s r = (Inl AssertionError, s) \<or> add_new_event s r = (Inr (), appended s r)"
proof (cases "target (event_objs s ! r) = []")
  case True
  then show ?thesis by (simp add: add_new_event_no_target)
next
  case t: False
  show ?thesis
  proof (cases "refs_of (raw_events s) (target (event_objs s ! r)) \<noteq> [] \<and>
            isinstance_InitialValue (event_objs s ! r)")
    case True
    then show ?thesis using t by (simp add: add_new_event_initial_twice)
  next
    case False
    then show ?thesis using t assms add_new_event_ok[of s r] by simp
  qed
qed

lemma pointer_records_nothing:
  "records_nothing s s' \<Longrightarrow> pointer s' snap name = pointer s snap name"
  by (simp add: records_nothing_def pointer_def)

lemma pointer_appended_old:
  "events_pointer snap < length (dict_objs s) \<Longrightarrow>
     pointer (appended s r) snap name = pointer s snap name"
  by (simp add: appended_def Let_def pointer_def nth_append)

lemma pointer_of_increment:
  "pointer_of (increment p tgt) name = (if name = tgt then pointer_of p tgt + 1 else pointer_of p name)"
  by (simp add: increment_def pointer_of_def)

lemma pointer_appended_new:
  "pointer (appended s r) (latest_snapshot (appended s r)) name =
     (if name = target (event_objs s ! r)
      then pointer s (last (snapshots s)) name + 1
      else pointer s (last (snapshots s)) name)"
  by (simp add: appended_def Let_def pointer_def pointer_of_increment)

lemma snapshots_appended:
  "snapshots (appended s r) = snapshots s @ [latest_snapshot (appended s r)]"
  by (simp add: appended_def Let_def)

lemma total_events_appended: "total_events (appended s r) = Suc (total_events s)"
  by (simp add: appended_def Let_def total_events_def total_append_item total_getitem)

lemma wf_state_init: "wf_state (Frame_init fn o2l)"
  by (simp add: wf_state_def Frame_init_def Let_def refs_of_def)

lemma wf_state_records_nothing:
  assumes "wf_state s" and "records_nothing s s'"
  shows "wf_state s'"
  using assms unfolding wf_state_def records_nothing_def
  by (metis order_less_le_trans)

lemma wf_state_appended:
  assumes "wf_state s" and "r < length (event_objs s)"
  shows "wf_state (appended s r)"
proof -
  have d: "distinct (map fst (raw_events (appended s r)))"
    using assms(1) by (simp add: wf_state_def appended_def Let_def distinct_append_item distinct_getitem)
  have e: "\<forall>name. \<forall>x \<in> set (refs_of (raw_events (appended s r)) name). x < length (event_objs (appended s r))"
    using assms by (auto simp: wf_state_def refs_of_appended event_objs_appended)
  have n: "snapshots (appended s r) \<noteq> []" by (simp add: snapshots_appended)
  have p: "\<forall>snap \<in> set (snapshots (appended s r)). events_pointer snap < length (dict_objs (appended s r))"
    using assms(1) by (auto simp: wf_state_def appended_def Let_def less_Suc_eq)
  from d e n p show ?thesis by (simp add: wf_state_def)
qed

lemma cross_structure_inv_init: "cross_structure_inv (Frame_init fn o2l)"
  by (simp add: cross_structure_inv_def Frame_init_def Let_def total_events_def pointer_def
      pointer_of_def INITIAL_STATE_def refs_of_def)

lemma cross_structure_inv_records_nothing:
  assumes "cross_structure_inv s" and "records_nothing s s'"
  shows "cross_structure_inv s'"
proof -
  have p: "\<And>snap name. pointer s' snap name = pointer s snap name"
    using assms(2) by (rule pointer_records_nothing)
  show ?thesis using assms
    by (auto simp: cross_structure_inv_def p records_nothing_def)
qed

lemma cross_structure_inv_appended:
  assumes "cross_structure_inv s"
  shows "cross_structure_inv (appended s r)"
proof -
  have l: "latest_snapshot s = last (snapshots s)"
    and c: "length (snapshots s) = 1 + total_events s"
    and q: "\<And>name. pointer s (last (snapshots s)) name = int (length (refs_of (raw_events s) name)) - 1"
    using assms by (auto simp: cross_structure_inv_def)
  show ?thesis
    unfolding cross_structure_inv_def
    by (simp add: snapshots_appended[of s r] total_events_appended c pointer_appended_new q refs_of_appended)
qed

lemma monotone_snapshots_init: "monotone_snapshots (Frame_init fn o2l)"
  by (simp add: monotone_snapshots_def Frame_init_def Let_def pointer_def pointer_of_def)

lemma monotone_snapshots_records_nothing:
  assumes "monotone_snapshots s" and "records_nothing s s'"
  shows "monotone_snapshots s'"
proof -
  have p: "\<And>snap name. pointer s' snap name = pointer s snap name"
    using assms(2) by (rule pointer_records_nothing)
  have sn: "snapshots s' = snapshots s" using assms(2) by (simp add: records_nothing_def)
  show ?thesis using assms(1)
    by (simp add: monotone_snapshots_def one_step_def p sn)
qed

lemma monotone_snapshots_appended:
  assumes "monotone_snapshots s" and "wf_state s"
  shows "monotone_snapshots (appended s r)"
proof -
  let ?s' = "appended s r"
  let ?new = "latest_snapshot ?s'"
  have ne: "snapshots s \<noteq> []" using assms(2) by (simp add: wf_state_def)
  have old: "\<And>snap name. snap \<in> set (snapshots s) \<Longrightarrow> pointer ?s' snap name = pointer s snap name"
    using assms(2) by (simp add: wf_state_def pointer_appended_old)
  have seed: "\<forall>name. pointer ?s' (snapshots ?s' ! 0) name = INITIAL_STATE"
  proof -
    have "snapshots ?s' ! 0 = snapshots s ! 0"
      using ne by (simp add: snapshots_appended[of s r] nth_append)
    moreover have "snapshots s ! 0 \<in> set (snapshots s)" using ne by simp
    ultimately show ?thesis using assms(1) old by (simp add: monotone_snapshots_def)
  qed
  have step: "one_step ?s' (snapshots ?s' ! i) (snapshots ?s' ! Suc i)"
    if i: "Suc i < length (snapshots ?s')" for i
  proof (cases "Suc i < length (snapshots s)")
    case True
    then have a: "snapshots ?s' ! i = snapshots s ! i" "snapshots ?s' ! Suc i = snapshots s ! Suc i"
      by (simp_all add: snapshots_appended[of s r] nth_append)
    have m: "snapshots s ! i \<in> set (snapshots s)" "snapshots s ! Suc i \<in> set (snapshots s)"
      using True by simp_all
    have "one_step s (snapshots s ! i) (snapshots s ! Suc i)"
      using assms(1) True by (simp add: monotone_snapshots_def)
    then show ?thesis by (simp add: one_step_def a old[OF m(1)] old[OF m(2)])
  next
    case False
    with i have eq: "Suc i = length (snapshots s)"
      by (simp add: snapshots_appended[of s r])
    then have i': "i = length (snapshots s) - 1" by simp
    have a: "snapshots ?s' ! i = last (snapshots s)" "snapshots ?s' ! Suc i = ?new"
      using ne eq by (simp_all add: snapshots_appended[of s r] nth_append last_conv_nth i')
    have m: "last (snapshots s) \<in> set (snapshots s)" using ne by simp
    show ?thesis
      unfolding one_step_def a
      by (rule exI[of _ "target (event_objs s ! r)"])
         (simp add: pointer_appended_new old[OF m])
  qed
  from seed step show ?thesis by (simp add: monotone_snapshots_def)
qed

lemma frame_inv_init: "frame_inv (Frame_init fn o2l)"
  by (simp add: frame_inv_def wf_state_init cross_structure_inv_init monotone_snapshots_init)

lemma frame_inv_records_nothing: "frame_inv s \<Longrightarrow> records_nothing s s' \<Longrightarrow> frame_inv s'"
  by (auto simp: frame_inv_def intro: wf_state_records_nothing
      cross_structure_inv_records_nothing monotone_snapshots_records_nothing)

lemma frame_inv_appended: "frame_inv s \<Longrightarrow> r < length (event_objs s) \<Longrightarrow> frame_inv (appended s r)"
  by (simp add: frame_inv_def wf_state_appended cross_structure_inv_appended
      monotone_snapshots_appended)

lemma frame_inv_add_new_event:
  assumes "frame_inv s" and "r < length (event_objs s)"
  shows "frame_inv (snd (add_new_event s r))"
proof -
  have "snapshots s \<noteq> []" using assms(1) by (simp add: frame_inv_def wf_state_def)
  from add_new_event_cases[OF this, of r] show ?thesis
    using assms by (auto simp: frame_inv_appended)
qed

section \<open>Every method keeps the invariant\<close>

lemma accumulate_name_extends:
  "\<exists>suffix. snd (accumulate_name apply_delta name objs result raw) = objs @ suffix"
proof (induction raw arbitrary: objs result)
  case Nil
  then show ?case by simp
next
  case (Cons r raw)
  show ?case
  proof (cases "objs ! r")
    case (Mutation t d src vo l f)
    let ?objs1 = "objs @ [objs ! r]"
    show ?thesis
    proof (cases "fst (getitem result name) = []")
      case True
      then show ?thesis using Mutation by (simp add: Let_def case_prod_unfold)
    next
      case ne: False
      show ?thesis
      proof (cases "getattr_value (?objs1 ! last (fst (getitem result name)))")
        case (Inl err)
        then show ?thesis using Mutation ne by (simp add: Let_def case_prod_unfold)
      next
        case (Inr prev)
        let ?objs2 = "objs @ [Mutation t d src (Some (apply_delta prev d)) l f]"
        from Cons.IH[of ?objs2 "append_item (snd (getitem result name)) name (length objs)"]
        obtain suffix where
          "snd (accumulate_name apply_delta name ?objs2
                 (append_item (snd (getitem result name)) name (length objs)) raw)
             = ?objs2 @ suffix" by blast
        then show ?thesis using Mutation ne Inr
          by (simp add: Let_def case_prod_unfold)
      qed
    qed
  qed (use Cons.IH in simp_all)
qed

lemma accumulate_items_extends:
  "\<exists>suffix. snd (accumulate_items apply_delta objs result items) = objs @ suffix"
proof (induction items arbitrary: objs result)
  case Nil
  then show ?case by simp
next
  case (Cons item items)
  obtain name raw where item: "item = (name, raw)" by (cases item)
  obtain suffix where s: "snd (accumulate_name apply_delta name objs result raw) = objs @ suffix"
    using accumulate_name_extends by blast
  show ?case
  proof (cases "fst (accumulate_name apply_delta name objs result raw)")
    case (Inl err)
    then show ?thesis using s item by (simp add: case_prod_unfold)
  next
    case (Inr result')
    from Cons.IH[of "objs @ suffix" result'] obtain suffix' where
      "snd (accumulate_items apply_delta (objs @ suffix) result' items) = (objs @ suffix) @ suffix'"
      by blast
    then show ?thesis using s item Inr by (simp add: case_prod_unfold)
  qed
qed

lemma records_nothing_accumulated_events:
  "records_nothing s (snd (accumulated_events apply_delta s))"
proof -
  obtain suffix where
    "snd (accumulate_items apply_delta (event_objs s) [] (raw_events s)) = event_objs s @ suffix"
    using accumulate_items_extends by blast
  then show ?thesis
    by (simp add: accumulated_events_def case_prod_unfold records_nothing_def total_events_def)
qed

lemma log_initial_value_events_steps:
  "\<exists>s1. records_nothing s s1 \<and>
     (snd (log_initial_value_events s ignored name_exist tgt v offset) = s1 \<or>
      (\<exists>r < length (event_objs s1).
         snd (log_initial_value_events s ignored name_exist tgt v offset) = snd (add_new_event s1 r)))"
proof -
  let ?s1 = "snd (knows s tgt)"
  have k: "records_nothing s ?s1" by (rule records_nothing_knows)
  show ?thesis
  proof (cases "ignored \<or> \<not> name_exist")
    case True
    then have "snd (log_initial_value_events s ignored name_exist tgt v offset) = s"
      by (auto simp: log_initial_value_events_def)
    then show ?thesis using records_nothing_refl by metis
  next
    case run: False
    show ?thesis
    proof (cases "fst (knows s tgt) \<or> offset_to_lineno ?s1 offset = None")
      case True
      then have "snd (log_initial_value_events s ignored name_exist tgt v offset) = ?s1"
        using run by (auto simp: log_initial_value_events_def case_prod_unfold Let_def)
      then show ?thesis using k by metis
    next
      case False
      then obtain lineno where ln: "offset_to_lineno ?s1 offset = Some lineno" by auto
      let ?e = "InitialValue tgt v lineno (filename ?s1)"
      let ?s2 = "snd (new_event ?s1 ?e)"
      have r: "records_nothing s ?s2"
        using k records_nothing_new_event records_nothing_trans by blast
      have "snd (log_initial_value_events s ignored name_exist tgt v offset)
              = snd (add_new_event ?s2 (length (event_objs ?s1)))"
        using run False ln
        by (simp add: log_initial_value_events_def case_prod_unfold Let_def new_event_def)
      moreover have "length (event_objs ?s1) < length (event_objs ?s2)"
        by (simp add: new_event_def)
      ultimately show ?thesis using r by metis
    qed
  qed
qed

lemma log_events_steps:
  "\<exists>s1. records_nothing s s1 \<and>
     (snd (log_events diff apply_delta s event_info v offset) = s1 \<or>
      (\<exists>r < length (event_objs s1).
         snd (log_events diff apply_delta s event_info v offset) = snd (add_new_event s1 r)))"
proof (cases event_info)
  case None
  then have "snd (log_events diff apply_delta s event_info v offset) = s"
    by (simp add: log_events_def)
  then show ?thesis using records_nothing_refl by metis
next
  case (Some info)
  let ?tgt = "info_target info"
  show ?thesis
  proof (cases "info_type info")
    case EventType_Deletion
    show ?thesis
    proof (cases "offset_to_lineno s offset")
      case None
      then have "snd (log_events diff apply_delta s event_info v offset) = s"
        using Some EventType_Deletion by (simp add: log_events_def)
      then show ?thesis using records_nothing_refl by metis
    next
      case (Some lineno)
      let ?s1 = "snd (new_event s (Deletion ?tgt lineno (filename s)))"
      have "snd (log_events diff apply_delta s event_info v offset)
              = snd (add_new_event ?s1 (length (event_objs s)))"
        using Some \<open>event_info = Some info\<close> EventType_Deletion
        by (simp add: log_events_def Let_def case_prod_unfold new_event_def)
      moreover have "length (event_objs s) < length (event_objs ?s1)"
        by (simp add: new_event_def)
      moreover have "records_nothing s ?s1" by (rule records_nothing_new_event)
      ultimately show ?thesis by metis
    qed
  next
    case EventType_Mutation
    let ?s1 = "snd (knows s ?tgt)"
    have k: "records_nothing s ?s1" by (rule records_nothing_knows)
    show ?thesis
    proof (cases "offset_to_lineno ?s1 offset")
      case None
      then have "snd (log_events diff apply_delta s event_info v offset) = ?s1"
        using Some EventType_Mutation by (simp add: log_events_def Let_def case_prod_unfold)
      then show ?thesis using k by metis
    next
      case ln: (Some lineno)
      show ?thesis
      proof (cases "fst (knows s ?tgt)")
        case False
        let ?s2 = "snd (new_event ?s1 (Creation ?tgt v (info_sources info) lineno (filename ?s1)))"
        have "snd (log_events diff apply_delta s event_info v offset)
                = snd (add_new_event ?s2 (length (event_objs ?s1)))"
          using Some EventType_Mutation ln False
          by (simp add: log_events_def Let_def case_prod_unfold new_event_def)
        moreover have "length (event_objs ?s1) < length (event_objs ?s2)"
          by (simp add: new_event_def)
        moreover have "records_nothing s ?s2"
          using k records_nothing_new_event records_nothing_trans by blast
        ultimately show ?thesis by metis
      next
        case True
        let ?s2 = "snd (latest_value_of apply_delta ?s1 ?tgt)"
        have k2: "records_nothing s ?s2"
          using k records_nothing_latest_value_of records_nothing_trans by blast
        show ?thesis
        proof (cases "fst (latest_value_of apply_delta ?s1 ?tgt)")
          case (Inl err)
          then have "snd (log_events diff apply_delta s event_info v offset) = ?s2"
            using Some EventType_Mutation ln True
            by (simp add: log_events_def Let_def case_prod_unfold split: sum.splits)
          then show ?thesis using k2 by metis
        next
          case (Inr old)
          let ?s3 = "snd (new_event ?s2 (Mutation ?tgt (diff old v) (info_sources info) None
                                          lineno (filename ?s2)))"
          have "snd (log_events diff apply_delta s event_info v offset)
                  = snd (add_new_event ?s3 (length (event_objs ?s2)))"
            using Some EventType_Mutation ln True Inr
            by (simp add: log_events_def Let_def case_prod_unfold new_event_def split: sum.splits)
          moreover have "length (event_objs ?s2) < length (event_objs ?s3)"
            by (simp add: new_event_def)
          moreover have "records_nothing s ?s3"
            using k2 records_nothing_new_event records_nothing_trans by blast
          ultimately show ?thesis by metis
        qed
      qed
    qed
  qed
qed

lemma reachable_frame_inv: "reachable diff apply_delta s \<Longrightarrow> frame_inv s"
proof (induction rule: reachable.induct)
  case (r_init fn o2l)
  show ?case by (rule frame_inv_init)
next
  case (r_new_event s e)
  then show ?case using frame_inv_records_nothing records_nothing_new_event by blast
next
  case (r_add_new_event s r)
  then show ?case by (simp add: frame_inv_add_new_event)
next
  case (r_knows s name)
  then show ?case using frame_inv_records_nothing records_nothing_knows by blast
next
  case (r_latest_value_of s name)
  then show ?case using frame_inv_records_nothing records_nothing_latest_value_of by blast
next
  case (r_log_initial_value_events s ignored name_exist tgt v offset)
  from log_initial_value_events_steps[of s ignored name_exist tgt v offset]
  show ?case using r_log_initial_value_events.IH
    by (metis frame_inv_records_nothing frame_inv_add_new_event)
next
  case (r_log_events s event_info v offset)
  from log_events_steps[of s diff apply_delta event_info v offset]
  show ?case using r_log_events.IH
    by (metis frame_inv_records_nothing frame_inv_add_new_event)
next
  case (r_accumulated_events s)
  then show ?case using frame_inv_records_nothing records_nothing_accumulated_events by blast
qed

section \<open>Snapshots\<close>

lemma snapshots_kept_records_nothing: "records_nothing s s' \<Longrightarrow> snapshots_kept s s'"
  by (simp add: snapshots_kept_def records_nothing_def)

lemma snapshots_kept_appended: "wf_state s \<Longrightarrow> snapshots_kept s (appended s r)"
  by (simp add: snapshots_kept_def wf_state_def appended_def Let_def nth_append)

lemma snapshots_kept_add_new_event:
  assumes "wf_state s"
  shows "snapshots_kept s (snd (add_new_event s r))"
proof -
  have "snapshots s \<noteq> []" using assms by (simp add: wf_state_def)
  from add_new_event_cases[OF this, of r] show ?thesis
    using assms snapshots_kept_appended[of s r] snapshots_kept_records_nothing[OF records_nothing_refl, of s]
    by auto
qed

lemma snapshots_kept_after_nothing:
  assumes "records_nothing s s1" and "snapshots_kept s1 s2"
  shows "snapshots_kept s s2"
  using assms by (simp add: snapshots_kept_def records_nothing_def)

text \<open>
  C7. Appending a new event never modifies a snapshot issued before: for every snapshot
  of the index before the append (by \<open>_add_new_event\<close>, or by \<open>log_events\<close> or
  \<open>log_initial_value_events\<close>, which call it), the snapshot is in the index after the
  append at the same place, with the same location tag, and its pointer mapping is the
  same. The dictionary that \<open>_add_new_event\<close> writes to is the copy.
\<close>

theorem snapshots_unchanged_by_append:
  assumes "reachable diff apply_delta s" and "r < length (event_objs s)"
  shows "snapshots_kept s (snd (add_new_event s r))
    \<and> snapshots_kept s (snd (log_events diff apply_delta s event_info v offset))
    \<and> snapshots_kept s (snd (log_initial_value_events s ignored name_exist tgt v offset))
    \<and> (\<forall>snap \<in> set (snapshots s). \<forall>name.
          snap \<in> set (snapshots (snd (add_new_event s r))) \<and>
          pointer (snd (add_new_event s r)) snap name = pointer s snap name)"
proof -
  have wf: "wf_state s" using assms(1) reachable_frame_inv by (auto simp: frame_inv_def)
  have wf1: "\<And>s1. records_nothing s s1 \<Longrightarrow> wf_state s1"
    using wf wf_state_records_nothing by blast
  have a: "snapshots_kept s (snd (add_new_event s r))"
    using wf by (rule snapshots_kept_add_new_event)
  have b: "snapshots_kept s (snd (log_events diff apply_delta s event_info v offset))"
    using log_events_steps[of s diff apply_delta event_info v offset]
    by (metis wf1 snapshots_kept_records_nothing snapshots_kept_add_new_event
        snapshots_kept_after_nothing)
  have c: "snapshots_kept s (snd (log_initial_value_events s ignored name_exist tgt v offset))"
    using log_initial_value_events_steps[of s ignored name_exist tgt v offset]
    by (metis wf1 snapshots_kept_records_nothing snapshots_kept_add_new_event
        snapshots_kept_after_nothing)
  have d: "snap \<in> set (snapshots (snd (add_new_event s r))) \<and>
          pointer (snd (add_new_event s r)) snap name = pointer s snap name"
    if "snap \<in> set (snapshots s)" for snap name
  proof -
    from that obtain i where i: "i < length (snapshots s)" "snapshots s ! i = snap"
      by (auto simp: in_set_conv_nth)
    with a have "i < length (snapshots (snd (add_new_event s r)))"
      "snapshots (snd (add_new_event s r)) ! i = snap"
      "dict_objs (snd (add_new_event s r)) ! events_pointer snap = dict_objs s ! events_pointer snap"
      by (auto simp: snapshots_kept_def)
    then show ?thesis by (auto simp: pointer_def in_set_conv_nth)
  qed
  from a b c d show ?thesis by blast
qed

text \<open>
  C10. In every state of a frame, \<open>latest_snapshot\<close> is the last element of
  \<open>snapshots\<close>, the number of snapshots is one plus the number of events appended, and
  the latest snapshot's pointer for every identifier is the length of the identifier's
  timeline minus one (\<open>-1\<close> for an identifier that never had an event).
\<close>

theorem cross_structure_invariant:
  assumes "reachable diff apply_delta s"
  shows "snapshots s \<noteq> [] \<and> latest_snapshot s = last (snapshots s)
    \<and> length (snapshots s) = 1 + total_events s
    \<and> (\<forall>name. pointer s (latest_snapshot s) name = int (length (timeline s name)) - 1)"
  using reachable_frame_inv[OF assms]
  by (auto simp: frame_inv_def cross_structure_inv_def timeline_def)

text \<open>
  C6. In every state of a frame, the seed snapshot maps every identifier to \<open>-1\<close>, and
  for every pair of consecutive snapshots exactly one identifier's pointer differs, the
  second being the first plus one. The first event of an identifier moves its pointer
  from \<open>-1\<close> to \<open>0\<close>.
\<close>

theorem snapshot_monotonicity:
  assumes "reachable diff apply_delta s"
  shows "(\<forall>name. pointer s (snapshots s ! 0) name = - 1)
    \<and> (\<forall>i. Suc i < length (snapshots s) \<longrightarrow>
          (\<exists>name. pointer s (snapshots s ! Suc i) name = pointer s (snapshots s ! i) name + 1 \<and>
             (\<forall>n. (pointer s (snapshots s ! Suc i) n \<noteq> pointer s (snapshots s ! i) n) = (n = name))))
    \<and> (\<forall>r. timeline s (target (event_objs s ! r)) = [] \<longrightarrow> fst (add_new_event s r) = Inr () \<longrightarrow>
          pointer s (latest_snapshot s) (target (event_objs s ! r)) = - 1 \<and>
          pointer (snd (add_new_event s r)) (latest_snapshot (snd (add_new_event s r)))
            (target (event_objs s ! r)) = 0)"
proof -
  have inv: "frame_inv s" using assms by (rule reachable_frame_inv)
  have a: "\<forall>name. pointer s (snapshots s ! 0) name = - 1"
    using inv by (simp add: frame_inv_def monotone_snapshots_def INITIAL_STATE_def)
  have b: "\<forall>i. Suc i < length (snapshots s) \<longrightarrow>
          (\<exists>name. pointer s (snapshots s ! Suc i) name = pointer s (snapshots s ! i) name + 1 \<and>
             (\<forall>n. (pointer s (snapshots s ! Suc i) n \<noteq> pointer s (snapshots s ! i) n) = (n = name)))"
    using inv by (simp add: frame_inv_def monotone_snapshots_def one_step_def)
  have c: "pointer s (latest_snapshot s) (target (event_objs s ! r)) = - 1 \<and>
          pointer (snd (add_new_event s r)) (latest_snapshot (snd (add_new_event s r)))
            (target (event_objs s ! r)) = 0"
    if e: "timeline s (target (event_objs s ! r)) = []" and ok: "fst (add_new_event s r) = Inr ()" for r
  proof -
    have l: "latest_snapshot s = last (snapshots s)"
      and p: "pointer s (latest_snapshot s) (target (event_objs s ! r))
                = int (length (refs_of (raw_events s) (target (event_objs s ! r)))) - 1"
      using inv by (auto simp: frame_inv_def cross_structure_inv_def)
    have s': "snd (add_new_event s r) = appended s r" using ok by (rule add_new_event_Inr)
    show ?thesis using e p l by (simp add: s' pointer_appended_new timeline_empty)
  qed
  from a b c show ?thesis by blast
qed

section \<open>Atomicity of an append\<close>

text \<open>
  C8. In a state of a frame, \<open>_add_new_event\<close> either raises \<open>AssertionError\<close> and
  leaves the whole state as it was (when the target is empty, or the event is an
  \<open>InitialValue\<close> and the target has an event already), or succeeds: the event is at the
  end of its target's timeline, every other timeline is as before, and exactly one
  snapshot has been added at the end of the index. The snapshot list of a frame is never
  empty, so \<open>self.snapshots[-1]\<close> cannot raise after the event has been appended.
\<close>

theorem add_new_event_atomic:
  assumes "reachable diff apply_delta s" and "r < length (event_objs s)"
  shows "(if target (event_objs s ! r) = [] \<or>
            (isinstance_InitialValue (event_objs s ! r) \<and> timeline s (target (event_objs s ! r)) \<noteq> [])
          then add_new_event s r = (Inl AssertionError, s)
          else fst (add_new_event s r) = Inr ()
             \<and> timeline (snd (add_new_event s r)) (target (event_objs s ! r))
                 = timeline s (target (event_objs s ! r)) @ [event_objs s ! r]
             \<and> (\<forall>n. n \<noteq> target (event_objs s ! r) \<longrightarrow>
                   timeline (snd (add_new_event s r)) n = timeline s n)
             \<and> (\<exists>snap. snapshots (snd (add_new_event s r)) = snapshots s @ [snap])
             \<and> total_events (snd (add_new_event s r)) = total_events s + 1)"
proof -
  have ne: "snapshots s \<noteq> []"
    using reachable_frame_inv[OF assms(1)] by (simp add: frame_inv_def wf_state_def)
  show ?thesis
  proof (cases "target (event_objs s ! r) = [] \<or>
            (isinstance_InitialValue (event_objs s ! r) \<and> timeline s (target (event_objs s ! r)) \<noteq> [])")
    case True
    then show ?thesis
      using add_new_event_no_target[of s r] add_new_event_initial_twice[of s r]
      by (auto simp: timeline_empty)
  next
    case False
    then have "add_new_event s r = (Inr (), appended s r)"
      using ne add_new_event_ok[of s r] by (auto simp: timeline_empty)
    then show ?thesis using False
      by (simp add: timeline_def refs_of_appended event_objs_appended snapshots_appended
          total_events_appended)
  qed
qed

section \<open>The concrete frames are states of a frame\<close>

lemma reachable_fresh_frame: "reachable replace_diff replace_delta fresh_frame"
  unfolding fresh_frame_def by (rule reachable.r_init)

lemma reachable_created_frame: "reachable replace_diff replace_delta created_frame"
  unfolding created_frame_def Let_def
  by (intro reachable.r_log_events reachable_fresh_frame)

lemma reachable_swap_frame: "reachable replace_diff replace_delta swap_frame"
  unfolding swap_frame_def Let_def
  by (intro reachable.r_log_events reachable_created_frame)

lemma reachable_pending_deletion: "reachable replace_diff replace_delta pending_deletion"
  unfolding pending_deletion_def by (intro reachable.r_new_event reachable_created_frame)

lemma reachable_pending_initial: "reachable replace_diff replace_delta pending_initial"
  unfolding pending_initial_def by (intro reachable.r_new_event reachable_created_frame)

lemma reachable_pending_creation: "reachable replace_diff replace_delta pending_creation"
  unfolding pending_creation_def by (intro reachable.r_new_event reachable_fresh_frame)

theorem cross_structure_invariant_witness:
  "reachable replace_diff replace_delta swap_frame
   \<and> snapshots swap_frame \<noteq> []
   \<and> latest_snapshot swap_frame = last (snapshots swap_frame)
   \<and> length (snapshots swap_frame) = 1 + total_events swap_frame
   \<and> total_events swap_frame = 4
   \<and> pointer swap_frame (latest_snapshot swap_frame) ''x'' = 1
   \<and> pointer swap_frame (latest_snapshot swap_frame) ''z'' = - 1"
proof -
  have x: "int (length (timeline swap_frame ''x'')) - 1 = 1" by code_simp
  have z: "int (length (timeline swap_frame ''z'')) - 1 = - 1" by code_simp
  have t: "total_events swap_frame = 4" by code_simp
  from cross_structure_invariant[OF reachable_swap_frame] x z t reachable_swap_frame
  show ?thesis by auto
qed

theorem snapshot_monotonicity_witness:
  "reachable replace_diff replace_delta swap_frame
   \<and> Suc 2 < length (snapshots swap_frame)
   \<and> pointer swap_frame (snapshots swap_frame ! 0) ''x'' = - 1
   \<and> (\<exists>name. pointer swap_frame (snapshots swap_frame ! Suc 2) name
                 = pointer swap_frame (snapshots swap_frame ! 2) name + 1 \<and>
         (\<forall>n. (pointer swap_frame (snapshots swap_frame ! Suc 2) n
                 \<noteq> pointer swap_frame (snapshots swap_frame ! 2) n) = (n = name)))
   \<and> reachable replace_diff replace_delta pending_creation
   \<and> timeline pending_creation (target (event_objs pending_creation ! 0)) = []
   \<and> fst (add_new_event pending_creation 0) = Inr ()
   \<and> pointer pending_creation (latest_snapshot pending_creation) ''x'' = - 1
   \<and> pointer (snd (add_new_event pending_creation 0))
        (latest_snapshot (snd (add_new_event pending_creation 0))) ''x'' = 0"
proof -
  have i: "Suc 2 < length (snapshots swap_frame)" by code_simp
  have e: "timeline pending_creation (target (event_objs pending_creation ! 0)) = []"
    by code_simp
  have ok: "fst (add_new_event pending_creation 0) = Inr ()" by code_simp
  have t: "target (event_objs pending_creation ! 0) = ''x''" by code_simp
  from snapshot_monotonicity[OF reachable_swap_frame] i
       snapshot_monotonicity[OF reachable_pending_creation] e ok t
       reachable_swap_frame reachable_pending_creation
  show ?thesis by (metis (no_types, lifting))
qed

theorem snapshots_unchanged_by_append_witness:
  "reachable replace_diff replace_delta pending_deletion
   \<and> 2 < length (event_objs pending_deletion)
   \<and> fst (add_new_event pending_deletion 2) = Inr ()
   \<and> snapshots_kept pending_deletion (snd (add_new_event pending_deletion 2))
   \<and> snapshots_kept pending_deletion
        (snd (log_events replace_diff replace_delta pending_deletion (deletion ''y'') [] 6))
   \<and> snapshots pending_deletion ! 1 \<in> set (snapshots pending_deletion)
   \<and> pointer (snd (add_new_event pending_deletion 2)) (snapshots pending_deletion ! 1) ''x''
       = pointer pending_deletion (snapshots pending_deletion ! 1) ''x''"
proof -
  have r: "2 < length (event_objs pending_deletion)" by code_simp
  have ok: "fst (add_new_event pending_deletion 2) = Inr ()" by code_simp
  have m: "snapshots pending_deletion ! 1 \<in> set (snapshots pending_deletion)" by code_simp
  from snapshots_unchanged_by_append[OF reachable_pending_deletion r,
         where event_info = "deletion ''y''" and v = "[]" and offset = 6]
       r ok m reachable_pending_deletion
  show ?thesis by blast
qed

theorem add_new_event_atomic_witness:
  "reachable replace_diff replace_delta pending_deletion
   \<and> 2 < length (event_objs pending_deletion)
   \<and> \<not> (target (event_objs pending_deletion ! 2) = [] \<or>
         (isinstance_InitialValue (event_objs pending_deletion ! 2) \<and>
          timeline pending_deletion (target (event_objs pending_deletion ! 2)) \<noteq> []))
   \<and> fst (add_new_event pending_deletion 2) = Inr ()
   \<and> timeline (snd (add_new_event pending_deletion 2)) (target (event_objs pending_deletion ! 2))
       = timeline pending_deletion (target (event_objs pending_deletion ! 2))
           @ [event_objs pending_deletion ! 2]
   \<and> total_events (snd (add_new_event pending_deletion 2)) = total_events pending_deletion + 1
   \<and> reachable replace_diff replace_delta pending_initial
   \<and> 2 < length (event_objs pending_initial)
   \<and> isinstance_InitialValue (event_objs pending_initial ! 2)
   \<and> timeline pending_initial (target (event_objs pending_initial ! 2)) \<noteq> []
   \<and> add_new_event pending_initial 2 = (Inl AssertionError, pending_initial)"
proof -
  have r: "2 < length (event_objs pending_deletion)" by code_simp
  have c: "\<not> (target (event_objs pending_deletion ! 2) = [] \<or>
         (isinstance_InitialValue (event_objs pending_deletion ! 2) \<and>
          timeline pending_deletion (target (event_objs pending_deletion ! 2)) \<noteq> []))"
    by code_simp
  have r': "2 < length (event_objs pending_initial)" by code_simp
  have i: "isinstance_InitialValue (event_objs pending_initial ! 2)" by code_simp
  have t: "timeline pending_initial (target (event_objs pending_initial ! 2)) \<noteq> []" by code_simp
  from add_new_event_atomic[OF reachable_pending_deletion r] c
  have a: "fst (add_new_event pending_deletion 2) = Inr ()
   \<and> timeline (snd (add_new_event pending_deletion 2)) (target (event_objs pending_deletion ! 2))
       = timeline pending_deletion (target (event_objs pending_deletion ! 2))
           @ [event_objs pending_deletion ! 2]
   \<and> total_events (snd (add_new_event pending_deletion 2)) = total_events pending_deletion + 1"
    by simp
  from add_new_event_atomic[OF reachable_pending_initial r'] i t
  have b: "add_new_event pending_initial 2 = (Inl AssertionError, pending_initial)" by simp
  from a b c r r' i t reachable_pending_deletion reachable_pending_initial
  show ?thesis by blast
qed

section \<open>The latest value\<close>

lemma fold_mutations_all:
  "list_all2 (\<lambda>r d. \<exists>t src vo l f. objs ! r = Mutation t d src vo l f) refs deltas
     \<Longrightarrow> fold_mutations apply_delta objs v refs = Inr (foldl apply_delta v deltas)"
proof (induction refs arbitrary: v deltas)
  case Nil
  then show ?case by simp
next
  case (Cons r refs)
  then obtain d ds where ds: "deltas = d # ds" by (cases deltas) auto
  with Cons.prems obtain t src vo l f where m: "objs ! r = Mutation t d src vo l f"
    and rest: "list_all2 (\<lambda>r d. \<exists>t src vo l f. objs ! r = Mutation t d src vo l f) refs ds"
    by auto
  show ?case using Cons.IH[OF rest] by (simp add: m ds)
qed

lemma fold_mutations_other:
  "\<exists>r \<in> set refs. \<not> isinstance_Mutation (objs ! r)
     \<Longrightarrow> fold_mutations apply_delta objs v refs = Inl AssertionError"
proof (induction refs arbitrary: v)
  case Nil
  then show ?case by simp
next
  case (Cons r refs)
  show ?case
  proof (cases "objs ! r")
    case (Mutation t d src vo l f)
    with Cons.prems have "\<exists>r \<in> set refs. \<not> isinstance_Mutation (objs ! r)" by auto
    then show ?thesis using Cons.IH Mutation by simp
  qed simp_all
qed

lemma latest_value_of_known:
  assumes "fst (knows s name)" and "refs_of (raw_events s) name = first # rest"
  shows "fst (latest_value_of apply_delta s name) =
     (case event_objs s ! first of
        InitialValue t v l f \<Rightarrow> fold_mutations apply_delta (event_objs s) v rest
      | Creation t v src l f \<Rightarrow> fold_mutations apply_delta (event_objs s) v rest
      | _ \<Rightarrow> Inl AssertionError)"
proof -
  have g: "getitem (raw_events s) name = (first # rest, raw_events s)"
    using assms(2) by (simp add: getitem_def refs_of_def split: option.splits)
  have c: "EventsDict_contains (event_objs s) (raw_events s) name = (True, raw_events s)"
    using assms g by (simp add: knows_fst EventsDict_contains_def)
  show ?thesis
    by (simp add: latest_value_of_def c g split: Event.splits)
qed

text \<open>
  C2. If the timeline of an identifier is an \<open>InitialValue\<close> or \<open>Creation\<close> with value
  \<open>v0\<close> followed by \<open>Mutation\<close>s with deltas \<open>d1, ..., dN\<close>, then \<open>_latest_value_of\<close>
  returns \<open>apply(...apply(v0, d1)..., dN)\<close>. If an event after the first is not a
  \<open>Mutation\<close>, the call raises: the assertion in the loop fails (\<open>AssertionError\<close>),
  unless the last event is a \<open>Deletion\<close>, in which case the identifier is not in
  \<open>raw_events\<close> and the call raises before the loop. No event is skipped.
\<close>

theorem latest_value_of_folds:
  "(timeline s name = first # mutations \<longrightarrow>
      (isinstance_InitialValue first \<or> isinstance_Creation first) \<longrightarrow>
      getattr_value first = Inr v0 \<longrightarrow>
      list_all2 (\<lambda>m d. \<exists>t src vo l f. m = Mutation t d src vo l f) mutations deltas \<longrightarrow>
      fst (latest_value_of apply_delta s name) = Inr (foldl apply_delta v0 deltas))
   \<and> (timeline s name = first # others \<longrightarrow>
      (\<exists>e \<in> set others. \<not> isinstance_Mutation e) \<longrightarrow>
      fst (latest_value_of apply_delta s name) =
        (if isinstance_Deletion (last others) then Inl AttributeError else Inl AssertionError))"
proof -
  have a: "fst (latest_value_of apply_delta s name) = Inr (foldl apply_delta v0 deltas)"
    if tl: "timeline s name = first # mutations"
      and fk: "isinstance_InitialValue first \<or> isinstance_Creation first"
      and v0: "getattr_value first = Inr v0"
      and ms: "list_all2 (\<lambda>m d. \<exists>t src vo l f. m = Mutation t d src vo l f) mutations deltas"
  proof -
    from tl obtain r rs where refs: "refs_of (raw_events s) name = r # rs"
      and r: "event_objs s ! r = first" and rs: "map (\<lambda>r. event_objs s ! r) rs = mutations"
      by (auto simp: timeline_def)
    have l: "list_all2 (\<lambda>r d. \<exists>t src vo l f. event_objs s ! r = Mutation t d src vo l f) rs deltas"
      using ms rs by (auto simp: list_all2_conv_all_nth)
    have allm: "\<forall>e \<in> set mutations. isinstance_Mutation e"
    proof
      fix e assume "e \<in> set mutations"
      then obtain i where i: "i < length mutations" "mutations ! i = e"
        by (auto simp: in_set_conv_nth)
      with ms obtain t src vo l f where "e = Mutation t (deltas ! i) src vo l f"
        by (auto simp: list_all2_conv_all_nth)
      then show "isinstance_Mutation e" by simp
    qed
    have nd: "\<not> isinstance_Deletion (last (timeline s name))"
    proof (cases "mutations = []")
      case True
      then show ?thesis using tl fk by (cases first) auto
    next
      case False
      then have "isinstance_Mutation (last mutations)" using allm by simp
      then have "\<not> isinstance_Deletion (last mutations)" by (cases "last mutations") auto
      then show ?thesis using tl False by simp
    qed
    have k: "fst (knows s name)"
      using nd tl by (simp add: knows_fst timeline_last[symmetric] timeline_empty[symmetric])
    show ?thesis using fk v0 r
      by (cases first) (simp_all add: latest_value_of_known[OF k refs] fold_mutations_all[OF l])
  qed
  have b: "fst (latest_value_of apply_delta s name) =
        (if isinstance_Deletion (last others) then Inl AttributeError else Inl AssertionError)"
    if tl: "timeline s name = first # others"
      and bad: "\<exists>e \<in> set others. \<not> isinstance_Mutation e"
  proof -
    from tl obtain r rs where refs: "refs_of (raw_events s) name = r # rs"
      and r: "event_objs s ! r = first" and rs: "map (\<lambda>r. event_objs s ! r) rs = others"
      by (auto simp: timeline_def)
    have ne: "others \<noteq> []" using bad by auto
    then have la: "last (timeline s name) = last others" using tl by simp
    have bad': "\<exists>r \<in> set rs. \<not> isinstance_Mutation (event_objs s ! r)"
      using bad rs by auto
    show ?thesis
    proof (cases "isinstance_Deletion (last others)")
      case True
      then have "\<not> fst (knows s name)"
        using la tl by (simp add: knows_fst timeline_last[symmetric] timeline_empty[symmetric])
      then show ?thesis using True by (simp add: latest_value_of_not_known)
    next
      case False
      then have k: "fst (knows s name)"
        using la tl by (simp add: knows_fst timeline_last[symmetric] timeline_empty[symmetric])
      show ?thesis using False
        by (simp add: latest_value_of_known[OF k refs] fold_mutations_other[OF bad']
            split: Event.splits)
    qed
  qed
  from a b show ?thesis by blast
qed

theorem latest_value_of_folds_witness:
  "timeline swap_frame ''x'' =
     Creation ''x'' ''foo'' [] 1 ''swap.py'' # [Mutation ''x'' ''bar'' [(''y'', 0)] None 3 ''swap.py'']
   \<and> fst (latest_value_of replace_delta swap_frame ''x'')
       = Inr (foldl replace_delta ''foo'' [''bar''])
   \<and> timeline recreated_frame ''x'' =
     Creation ''x'' ''foo'' [] 1 ''swap.py''
       # [Deletion ''x'' 3 ''swap.py'', Creation ''x'' ''baz'' [] 4 ''swap.py'']
   \<and> fst (latest_value_of replace_delta recreated_frame ''x'') = Inl AssertionError"
proof -
  have t1: "timeline swap_frame ''x'' =
     Creation ''x'' ''foo'' [] 1 ''swap.py'' # [Mutation ''x'' ''bar'' [(''y'', 0)] None 3 ''swap.py'']"
    by code_simp
  have t2: "timeline recreated_frame ''x'' =
     Creation ''x'' ''foo'' [] 1 ''swap.py''
       # [Deletion ''x'' 3 ''swap.py'', Creation ''x'' ''baz'' [] 4 ''swap.py'']"
    by code_simp
  have l: "list_all2 (\<lambda>m d. \<exists>t src vo l f. m = Mutation t d src vo l f)
      [Mutation ''x'' ''bar'' [(''y'', 0 :: nat)] (None :: string option) 3 ''swap.py''] [''bar'']"
    by simp
  have a: "fst (latest_value_of replace_delta swap_frame ''x'')
       = Inr (foldl replace_delta ''foo'' [''bar''])"
    using latest_value_of_folds[of swap_frame "''x''" "Creation ''x'' ''foo'' [] 1 ''swap.py''"
        "[Mutation ''x'' ''bar'' [(''y'', 0)] None 3 ''swap.py'']" "''foo''" "[''bar'']" replace_delta]
      t1 l by simp
  have b: "fst (latest_value_of replace_delta recreated_frame ''x'') = Inl AssertionError"
    using latest_value_of_folds[of recreated_frame "''x''" "Creation ''x'' ''foo'' [] 1 ''swap.py''"
        _ _ _ replace_delta "[Deletion ''x'' 3 ''swap.py'', Creation ''x'' ''baz'' [] 4 ''swap.py'']"]
      t2 by simp
  from t1 t2 a b show ?thesis by blast
qed

section \<open>Classification of a raw change\<close>

lemma timeline_records_nothing:
  assumes "wf_state s" and "records_nothing s s'"
  shows "timeline s' name = timeline s name"
proof -
  have refs: "refs_of (raw_events s') name = refs_of (raw_events s) name"
    using assms(2) by (simp add: records_nothing_def)
  have "event_objs s' ! r = event_objs s ! r" if "r \<in> set (refs_of (raw_events s) name)" for r
  proof -
    have lt: "r < length (event_objs s)" using assms(1) that by (auto simp: wf_state_def)
    have "take (length (event_objs s)) (event_objs s') ! r = event_objs s' ! r"
      using lt by simp
    then show ?thesis using assms(2) by (simp add: records_nothing_def)
  qed
  then show ?thesis by (simp add: timeline_def refs)
qed

lemma timeline_appended:
  "timeline (appended s r) name =
     (if name = target (event_objs s ! r) then timeline s name @ [event_objs s ! r]
      else timeline s name)"
  by (simp add: timeline_def refs_of_appended event_objs_appended)

lemma records_new_event:
  assumes wf: "wf_state s" and rn: "records_nothing s s1"
    and t: "target e \<noteq> []" and i: "\<not> isinstance_InitialValue e"
  shows "records s (add_new_event (snd (new_event s1 e)) (length (event_objs s1))) e"
proof -
  let ?s2 = "snd (new_event s1 e)"
  let ?r = "length (event_objs s1)"
  have rn2: "records_nothing s ?s2"
    using rn records_nothing_new_event records_nothing_trans by blast
  have wf2: "wf_state ?s2" using wf rn2 by (rule wf_state_records_nothing)
  have e: "event_objs ?s2 ! ?r = e" by (simp add: new_event_def)
  have ne: "snapshots ?s2 \<noteq> []" using wf2 by (simp add: wf_state_def)
  have ok: "add_new_event ?s2 ?r = (Inr (), appended ?s2 ?r)"
    using add_new_event_ok[of ?s2 ?r] t i ne by (simp add: e)
  have tl: "\<And>name. timeline ?s2 name = timeline s name"
    using wf rn2 by (rule timeline_records_nothing)
  have a: "timeline (appended ?s2 ?r) name =
      (if name = target e then timeline s name @ [e] else timeline s name)" for name
    by (simp add: timeline_appended e tl)
  have sn: "snapshots ?s2 = snapshots s" using rn2 by (simp add: records_nothing_def)
  show ?thesis
    by (simp add: records_def ok a snapshots_appended[of ?s2 ?r] sn)
qed

text \<open>
  C3, amended. For a raw change with a non-empty target, at an instruction whose offset
  is in the line table: if its kind is Deletion, \<open>log_events\<close> records a \<open>Deletion\<close>;
  otherwise, if the target is in \<open>raw_events\<close> and \<open>_latest_value_of\<close> returns a
  value \<open>old\<close>, it records a \<open>Mutation\<close> with the delta \<open>diff old v\<close> and the supplied
  sources; if the target is not in \<open>raw_events\<close>, it records a \<open>Creation\<close> with
  the new value and the supplied sources.
\<close>

theorem log_events_classifies:
  assumes "reachable diff apply_delta s"
    and "event_info = Some info"
    and "info_target info \<noteq> []"
    and "offset_to_lineno s offset = Some lineno"
  shows
    "(info_type info = EventType_Deletion \<longrightarrow>
        records s (log_events diff apply_delta s event_info v offset)
          (Deletion (info_target info) lineno (filename s)))
     \<and> (info_type info = EventType_Mutation \<longrightarrow> fst (knows s (info_target info)) \<longrightarrow>
        fst (latest_value_of apply_delta s (info_target info)) = Inr old \<longrightarrow>
        records s (log_events diff apply_delta s event_info v offset)
          (Mutation (info_target info) (diff old v) (info_sources info) None lineno (filename s)))
     \<and> (info_type info = EventType_Mutation \<longrightarrow> \<not> fst (knows s (info_target info)) \<longrightarrow>
        records s (log_events diff apply_delta s event_info v offset)
          (Creation (info_target info) v (info_sources info) lineno (filename s)))"
proof -
  let ?tgt = "info_target info"
  let ?s1 = "snd (knows s ?tgt)"
  have wf: "wf_state s" using assms(1) reachable_frame_inv by (auto simp: frame_inv_def)
  have k: "records_nothing s ?s1" by (rule records_nothing_knows)
  have fn1: "filename ?s1 = filename s" and ln1: "offset_to_lineno ?s1 offset = Some lineno"
    using k assms(4) by (simp_all add: records_nothing_def)
  have a: "records s (log_events diff apply_delta s event_info v offset)
          (Deletion ?tgt lineno (filename s))"
    if "info_type info = EventType_Deletion"
  proof -
    have "log_events diff apply_delta s event_info v offset
        = add_new_event (snd (new_event s (Deletion ?tgt lineno (filename s)))) (length (event_objs s))"
      using that assms(2,4) by (simp add: log_events_def Let_def case_prod_unfold new_event_def)
    then show ?thesis
      using records_new_event[OF wf records_nothing_refl, of "Deletion ?tgt lineno (filename s)"] assms(3)
      by simp
  qed
  have same: "?s1 = s" if "fst (knows s ?tgt)"
  proof -
    have "refs_of (raw_events s) ?tgt \<noteq> []" using that by (simp add: knows_fst)
    then show ?thesis by (simp add: knows_snd getitem_nonempty_same)
  qed
  have b: "records s (log_events diff apply_delta s event_info v offset)
          (Mutation ?tgt (diff old v) (info_sources info) None lineno (filename s))"
    if m: "info_type info = EventType_Mutation" and kn: "fst (knows s ?tgt)"
      and old: "fst (latest_value_of apply_delta s ?tgt) = Inr old"
  proof -
    let ?s2 = "snd (latest_value_of apply_delta s ?tgt)"
    let ?e = "Mutation ?tgt (diff old v) (info_sources info) None lineno (filename s)"
    have rn: "records_nothing s ?s2" by (rule records_nothing_latest_value_of)
    have fn2: "filename ?s2 = filename s" using rn by (simp add: records_nothing_def)
    have lv: "latest_value_of apply_delta s ?tgt = (Inr old, ?s2)"
      using old by (metis prod.collapse)
    have "log_events diff apply_delta s event_info v offset
        = add_new_event (snd (new_event ?s2 ?e)) (length (event_objs ?s2))"
      using m kn assms(2,4) same[OF kn] old fn2
      by (simp add: log_events_def Let_def case_prod_unfold new_event_def)
    then show ?thesis
      using records_new_event[OF wf rn, of ?e] assms(3) by simp
  qed
  have d: "records s (log_events diff apply_delta s event_info v offset)
          (Creation ?tgt v (info_sources info) lineno (filename s))"
    if m: "info_type info = EventType_Mutation" and kn: "\<not> fst (knows s ?tgt)"
  proof -
    let ?e = "Creation ?tgt v (info_sources info) lineno (filename s)"
    have "log_events diff apply_delta s event_info v offset
        = add_new_event (snd (new_event ?s1 ?e)) (length (event_objs ?s1))"
      using m kn assms(2) ln1 fn1
      by (simp add: log_events_def Let_def case_prod_unfold new_event_def)
    then show ?thesis
      using records_new_event[OF wf k, of ?e] assms(3) by simp
  qed
  from a b d show ?thesis by blast
qed

text \<open>
  C3, as the claim states it: whenever the target is in \<open>raw_events\<close>, a \<open>Mutation\<close>
  is appended. After \<open>x = "foo"; del x; x = "baz"\<close> the timeline of \<open>x\<close> is a
  \<open>Creation\<close>, a \<open>Deletion\<close> and a \<open>Creation\<close>; \<open>x\<close> is in \<open>raw_events\<close>, and the
  next assignment to \<open>x\<close> raises \<open>AssertionError\<close> (the assertion in the loop of
  \<open>_latest_value_of\<close>) and appends nothing.
\<close>

theorem log_events_classifies_counterexample:
  "fst (knows recreated_frame ''x'') = True
   \<and> fst (log_events replace_diff replace_delta recreated_frame (assignment ''x'' []) ''qux'' 8)
       = Inl AssertionError
   \<and> timeline (snd (log_events replace_diff replace_delta recreated_frame
                      (assignment ''x'' []) ''qux'' 8)) ''x''
       = timeline recreated_frame ''x''"
  by code_simp

theorem log_events_classifies_witness:
  "reachable replace_diff replace_delta created_frame
   \<and> offset_to_lineno created_frame 4 = Some 3
   \<and> records created_frame
        (log_events replace_diff replace_delta created_frame (deletion ''x'') [] 4)
        (Deletion ''x'' 3 ''swap.py'')
   \<and> fst (knows created_frame ''x'')
   \<and> fst (latest_value_of replace_delta created_frame ''x'') = Inr ''foo''
   \<and> records created_frame
        (log_events replace_diff replace_delta created_frame (assignment ''x'' [(''y'', 0)]) ''bar'' 4)
        (Mutation ''x'' (replace_diff ''foo'' ''bar'') [(''y'', 0)] None 3 ''swap.py'')
   \<and> \<not> fst (knows created_frame ''z'')
   \<and> records created_frame
        (log_events replace_diff replace_delta created_frame (assignment ''z'' []) ''new'' 4)
        (Creation ''z'' ''new'' [] 3 ''swap.py'')"
proof -
  have l: "offset_to_lineno created_frame 4 = Some 3" by code_simp
  have f: "filename created_frame = ''swap.py''" by code_simp
  have kx: "fst (knows created_frame ''x'')" by code_simp
  have ox: "fst (latest_value_of replace_delta created_frame ''x'') = Inr ''foo''" by code_simp
  have kz: "\<not> fst (knows created_frame ''z'')" by code_simp
  have a: "records created_frame
        (log_events replace_diff replace_delta created_frame (deletion ''x'') [] 4)
        (Deletion ''x'' 3 ''swap.py'')"
    using log_events_classifies[OF reachable_created_frame _ _ l,
        where event_info = "deletion ''x''"
          and info = "\<lparr>info_target = ''x'', info_type = EventType_Deletion, info_sources = []\<rparr>"
          and v = "[]"]
    by (simp add: deletion_def f)
  have b: "records created_frame
        (log_events replace_diff replace_delta created_frame (assignment ''x'' [(''y'', 0)]) ''bar'' 4)
        (Mutation ''x'' (replace_diff ''foo'' ''bar'') [(''y'', 0)] None 3 ''swap.py'')"
    using log_events_classifies[OF reachable_created_frame _ _ l,
        where event_info = "assignment ''x'' [(''y'', 0)]"
          and info = "\<lparr>info_target = ''x'', info_type = EventType_Mutation,
                        info_sources = [(''y'', 0)]\<rparr>"
          and v = "''bar''" and old = "''foo''"]
      kx ox
    by (simp add: assignment_def f)
  have c: "records created_frame
        (log_events replace_diff replace_delta created_frame (assignment ''z'' []) ''new'' 4)
        (Creation ''z'' ''new'' [] 3 ''swap.py'')"
    using log_events_classifies[OF reachable_created_frame _ _ l,
        where event_info = "assignment ''z'' []"
          and info = "\<lparr>info_target = ''z'', info_type = EventType_Mutation, info_sources = []\<rparr>"
          and v = "''new''"]
      kz
    by (simp add: assignment_def f)
  from a b c l kx ox kz reachable_created_frame
  show ?thesis by blast
qed

section \<open>The accumulated view\<close>

lemma map_of_deref_view:
  "map_of (deref_view objs d) name = map_option (map (\<lambda>r. objs ! r)) (map_of d name)"
  by (induction d) (auto simp: deref_view_def)

lemma deref_view_update:
  "deref_view objs (AList.update k v d) = AList.update k (map (\<lambda>r. objs ! r) v) (deref_view objs d)"
  by (induction d) (auto simp: deref_view_def)

lemma getitem_deref_view:
  "getitem (deref_view objs d) name =
     (map (\<lambda>r. objs ! r) (fst (getitem d name)), deref_view objs (snd (getitem d name)))"
  by (simp add: getitem_def map_of_deref_view deref_view_update split: option.splits)

lemma append_item_deref_view:
  "append_item (deref_view objs d) name (objs ! x) = deref_view objs (append_item d name x)"
  by (simp add: append_item_def getitem_deref_view case_prod_unfold Let_def deref_view_update)

lemma deref_view_extend:
  "valid_refs objs d \<Longrightarrow> deref_view (objs @ suffix) d = deref_view objs d"
  by (auto simp: deref_view_def valid_refs_def nth_append)

lemma valid_refs_extend: "valid_refs objs d \<Longrightarrow> valid_refs (objs @ suffix) d"
  by (fastforce simp: valid_refs_def)

lemma valid_refs_update:
  "valid_refs objs d \<Longrightarrow> \<forall>r \<in> set v. r < length objs \<Longrightarrow> valid_refs objs (AList.update k v d)"
  by (induction d) (auto simp: valid_refs_def)

lemma valid_refs_getitem: "valid_refs objs d \<Longrightarrow> valid_refs objs (snd (getitem d name))"
  by (simp add: getitem_def valid_refs_update split: option.splits)

lemma valid_refs_entries:
  "valid_refs objs d \<Longrightarrow> r \<in> set (fst (getitem d name)) \<Longrightarrow> r < length objs"
  by (auto simp: getitem_def valid_refs_def split: option.splits dest: map_of_SomeD)

lemma valid_refs_append_item:
  "valid_refs objs d \<Longrightarrow> x < length objs \<Longrightarrow> valid_refs objs (append_item d name x)"
  by (auto simp: append_item_def case_prod_unfold Let_def
      intro!: valid_refs_update valid_refs_getitem dest: valid_refs_entries)

lemma accumulate_name_simulates:
  assumes "valid_refs objs result" and "\<forall>r \<in> set raw. r < length objs"
  shows "view_of (snd (accumulate_name apply_delta name objs result raw))
           (fst (accumulate_name apply_delta name objs result raw))
         = accumulate_name_values apply_delta name (deref_view objs result) (map (\<lambda>r. objs ! r) raw)
       \<and> (\<forall>result'. fst (accumulate_name apply_delta name objs result raw) = Inr result'
             \<longrightarrow> valid_refs (snd (accumulate_name apply_delta name objs result raw)) result')"
  using assms
proof (induction raw arbitrary: objs result)
  case Nil
  then show ?case by (simp add: view_of_def)
next
  case (Cons r raw)
  have r: "r < length objs" and raw: "\<forall>x \<in> set raw. x < length objs"
    using Cons.prems(2) by simp_all
  let ?entries = "fst (getitem result name)"
  let ?result1 = "snd (getitem result name)"
  show ?case
  proof (cases "isinstance_Mutation (objs ! r)")
    case False
    have v: "valid_refs objs (append_item result name r)"
      using Cons.prems(1) r by (rule valid_refs_append_item)
    have step: "accumulate_name apply_delta name objs result (r # raw)
        = accumulate_name apply_delta name objs (append_item result name r) raw"
      using False by (cases "objs ! r") simp_all
    have vstep: "accumulate_name_values apply_delta name (deref_view objs result)
          (map (\<lambda>r. objs ! r) (r # raw))
        = accumulate_name_values apply_delta name
            (deref_view objs (append_item result name r)) (map (\<lambda>r. objs ! r) raw)"
      using False append_item_deref_view[of objs result name r, symmetric]
      by (cases "objs ! r") simp_all
    show ?thesis unfolding step vstep by (rule Cons.IH[OF v raw])
  next
    case True
    then obtain t d src vo l f where m: "objs ! r = Mutation t d src vo l f"
      by (cases "objs ! r") auto
    let ?objs1 = "objs @ [Mutation t d src vo l f]"
    show ?thesis
    proof (cases "?entries = []")
      case True
      then show ?thesis
        by (simp add: m Let_def case_prod_unfold view_of_def getitem_deref_view)
    next
      case ne: False
      have lv: "last ?entries < length objs"
        using Cons.prems(1) ne valid_refs_entries[of objs result "last ?entries" name] by simp
      have lo: "?objs1 ! last ?entries = objs ! last ?entries"
        using lv by (simp add: nth_append)
      have lm: "last (map (\<lambda>r. objs ! r) ?entries) = objs ! last ?entries"
        using ne by (simp add: last_map)
      show ?thesis
      proof (cases "getattr_value (objs ! last ?entries)")
        case (Inl err)
        then show ?thesis using ne
          by (simp add: m Let_def case_prod_unfold view_of_def getitem_deref_view lo lm)
      next
        case (Inr prev)
        let ?new = "Mutation t d src (Some (apply_delta prev d)) l f"
        let ?objs2 = "objs @ [?new]"
        let ?result2 = "append_item ?result1 name (length objs)"
        have v1: "valid_refs ?objs2 ?result1"
          using Cons.prems(1) by (simp add: valid_refs_getitem valid_refs_extend)
        have v2: "valid_refs ?objs2 ?result2"
          using v1 by (simp add: valid_refs_append_item)
        have raw2: "\<forall>x \<in> set raw. x < length ?objs2" using raw by auto
        have step: "accumulate_name apply_delta name objs result (r # raw)
            = accumulate_name apply_delta name ?objs2 ?result2 raw"
          using ne Inr by (simp add: m Let_def case_prod_unfold lo)
        have d2: "deref_view ?objs2 ?result2
            = append_item (deref_view objs ?result1) name ?new"
        proof -
          have "deref_view ?objs2 ?result2 = append_item (deref_view ?objs2 ?result1) name (?objs2 ! length objs)"
            by (simp only: append_item_deref_view)
          moreover have "deref_view ?objs2 ?result1 = deref_view objs ?result1"
            using Cons.prems(1) by (simp add: deref_view_extend valid_refs_getitem)
          ultimately show ?thesis by simp
        qed
        have m2: "map (\<lambda>r. ?objs2 ! r) raw = map (\<lambda>r. objs ! r) raw"
          using raw by (simp add: nth_append)
        have vstep: "accumulate_name_values apply_delta name (deref_view objs result)
              (map (\<lambda>r. objs ! r) (r # raw))
            = accumulate_name_values apply_delta name (deref_view ?objs2 ?result2)
                (map (\<lambda>r. ?objs2 ! r) raw)"
          using ne Inr by (simp add: m Let_def getitem_deref_view lm d2 m2)
        show ?thesis unfolding step vstep by (rule Cons.IH[OF v2 raw2])
      qed
    qed
  qed
qed

lemma accumulate_items_simulates:
  assumes "valid_refs objs result" and "valid_refs objs items"
  shows "view_of (snd (accumulate_items apply_delta objs result items))
           (fst (accumulate_items apply_delta objs result items))
         = accumulate_items_values apply_delta (deref_view objs result) (deref_view objs items)
       \<and> (\<forall>result'. fst (accumulate_items apply_delta objs result items) = Inr result'
             \<longrightarrow> valid_refs (snd (accumulate_items apply_delta objs result items)) result')"
  using assms
proof (induction items arbitrary: objs result)
  case Nil
  then show ?case by (simp add: view_of_def deref_view_def)
next
  case (Cons item items)
  obtain name raw where item: "item = (name, raw)" by (cases item)
  have raw: "\<forall>r \<in> set raw. r < length objs"
    and rest: "valid_refs objs items"
    using Cons.prems(2) by (auto simp: valid_refs_def item)
  let ?run = "accumulate_name apply_delta name objs result raw"
  have sim: "view_of (snd ?run) (fst ?run)
         = accumulate_name_values apply_delta name (deref_view objs result) (map (\<lambda>r. objs ! r) raw)"
    and val: "\<And>result'. fst ?run = Inr result' \<Longrightarrow> valid_refs (snd ?run) result'"
    using accumulate_name_simulates[OF Cons.prems(1) raw, of apply_delta name] by blast+
  obtain suffix where ext: "snd ?run = objs @ suffix"
    using accumulate_name_extends by blast
  have dv: "deref_view objs (item # items) = (name, map (\<lambda>r. objs ! r) raw) # deref_view objs items"
    by (simp add: deref_view_def item)
  show ?case
  proof (cases "fst ?run")
    case (Inl err)
    then have "accumulate_items apply_delta objs result (item # items) = (Inl err, snd ?run)"
      by (simp add: item case_prod_unfold)
    moreover have "accumulate_name_values apply_delta name (deref_view objs result)
        (map (\<lambda>r. objs ! r) raw) = Inl err"
      using sim Inl by (simp add: view_of_def)
    ultimately show ?thesis by (simp add: dv view_of_def)
  next
    case (Inr result1)
    have step: "accumulate_items apply_delta objs result (item # items)
        = accumulate_items apply_delta (snd ?run) result1 items"
      using Inr by (simp add: item case_prod_unfold)
    have v1: "valid_refs (snd ?run) result1" using Inr by (rule val)
    have v2: "valid_refs (snd ?run) items" using rest by (simp add: ext valid_refs_extend)
    have d2: "deref_view (snd ?run) items = deref_view objs items"
      using rest by (simp add: ext deref_view_extend)
    have "accumulate_name_values apply_delta name (deref_view objs result)
        (map (\<lambda>r. objs ! r) raw) = Inr (deref_view (snd ?run) result1)"
      using sim Inr by (simp add: view_of_def)
    then have vstep: "accumulate_items_values apply_delta (deref_view objs result)
          (deref_view objs (item # items))
        = accumulate_items_values apply_delta (deref_view (snd ?run) result1)
            (deref_view (snd ?run) items)"
      by (simp add: dv d2)
    show ?thesis unfolding step vstep by (rule Cons.IH[OF v1 v2])
  qed
qed

lemma wf_state_valid_refs: "wf_state s \<Longrightarrow> valid_refs (event_objs s) (raw_events s)"
proof -
  assume wf: "wf_state s"
  show ?thesis unfolding valid_refs_def
  proof (intro ballI)
    fix item r assume i: "item \<in> set (raw_events s)" and r: "r \<in> set (snd item)"
    have "map_of (raw_events s) (fst item) = Some (snd item)"
      using wf i by (simp add: wf_state_def)
    then have e: "refs_of (raw_events s) (fst item) = snd item" by (simp add: refs_of_def)
    have "\<forall>x \<in> set (refs_of (raw_events s) (fst item)). x < length (event_objs s)"
      using wf by (simp add: wf_state_def)
    then show "r < length (event_objs s)" using r by (simp add: e)
  qed
qed

lemma accumulated_events_view:
  assumes "wf_state s"
  shows "view_of (event_objs (snd (accumulated_events apply_delta s)))
           (fst (accumulated_events apply_delta s))
         = accumulate_items_values apply_delta [] (deref_view (event_objs s) (raw_events s))"
proof -
  have v0: "valid_refs (event_objs s) []" by (simp add: valid_refs_def)
  have "deref_view (event_objs s) [] = []" by (simp add: deref_view_def)
  then show ?thesis
    using accumulate_items_simulates[OF v0 wf_state_valid_refs[OF assms], of apply_delta]
    by (simp add: accumulated_events_def case_prod_unfold)
qed

lemma accumulated_events_raw_events:
  "raw_events (snd (accumulated_events apply_delta s)) = raw_events s"
  by (simp add: accumulated_events_def case_prod_unfold)

lemma accumulated_events_extends:
  "\<exists>suffix. event_objs (snd (accumulated_events apply_delta s)) = event_objs s @ suffix"
  using accumulate_items_extends[of apply_delta "event_objs s" "[]" "raw_events s"]
  by (simp add: accumulated_events_def case_prod_unfold)

lemma accumulated_events_idempotent:
  assumes "wf_state s"
  shows "view_of (event_objs (snd (accumulated_events apply_delta (snd (accumulated_events apply_delta s)))))
           (fst (accumulated_events apply_delta (snd (accumulated_events apply_delta s))))
       = view_of (event_objs (snd (accumulated_events apply_delta s)))
           (fst (accumulated_events apply_delta s))"
proof -
  let ?s1 = "snd (accumulated_events apply_delta s)"
  have wf1: "wf_state ?s1"
    using assms records_nothing_accumulated_events by (rule wf_state_records_nothing)
  obtain suffix where ext: "event_objs ?s1 = event_objs s @ suffix"
    using accumulated_events_extends by blast
  have "deref_view (event_objs ?s1) (raw_events ?s1) = deref_view (event_objs s) (raw_events s)"
    using wf_state_valid_refs[OF assms]
    by (simp add: ext accumulated_events_raw_events deref_view_extend)
  then show ?thesis
    by (simp add: accumulated_events_view[OF wf1] accumulated_events_view[OF assms])
qed

section \<open>The entries of the accumulated view\<close>

lemma entries_ok_extend:
  assumes "entries_ok apply_delta objs objs1 prev raw entries"
    and "\<forall>e \<in> set entries. e < length objs1"
    and "\<forall>p. prev = Some p \<longrightarrow> p < length objs1"
  shows "entries_ok apply_delta objs (objs1 @ suffix) prev raw entries"
  using assms
proof (induction raw arbitrary: prev entries)
  case Nil
  then show ?case by (cases entries) simp_all
next
  case (Cons r raw)
  then obtain e es where es: "entries = e # es" by (cases entries) simp_all
  have e: "e < length objs1" and rest: "\<forall>x \<in> set es. x < length objs1"
    using Cons.prems(2) by (simp_all add: es)
  have tail: "entries_ok apply_delta objs (objs1 @ suffix) (Some e) raw es"
    using Cons.IH[of "Some e" es] Cons.prems(1) rest e by (simp add: es)
  show ?case
  proof (cases "objs ! r")
    case (Mutation t d src vo l f)
    with Cons.prems(1) obtain p where p: "prev = Some p"
      by (cases prev) (simp_all add: es)
    then have pl: "p < length objs1" using Cons.prems(3) by simp
    show ?thesis using Cons.prems(1) tail e pl
      by (simp add: es Mutation p nth_append split: sum.splits)
  qed (use Cons.prems(1) tail in \<open>simp_all add: es\<close>)
qed

lemma accumulate_name_entries:
  assumes "take (length objs0) objs = objs0" and "length objs0 \<le> length objs"
    and "\<forall>r \<in> set rest. r < length objs0"
    and "valid_refs objs result"
    and "accumulate_name apply_delta name objs result rest = (Inr result', objs')"
  shows "\<exists>new. refs_of result' name = refs_of result name @ new
           \<and> entries_ok apply_delta objs0 objs' (last_entry (refs_of result name)) rest new
           \<and> (\<forall>n. n \<noteq> name \<longrightarrow> refs_of result' n = refs_of result n)
           \<and> (\<forall>e \<in> set new. e < length objs')"
  using assms
proof (induction rest arbitrary: objs result)
  case Nil
  then show ?case by simp
next
  case (Cons r rest)
  have r0: "r < length objs0" and rest0: "\<forall>x \<in> set rest. x < length objs0"
    using Cons.prems(3) by simp_all
  have r: "r < length objs" using r0 Cons.prems(2) by simp
  have same: "objs ! r = objs0 ! r"
  proof -
    have "take (length objs0) objs ! r = objs ! r" using r0 by simp
    then show ?thesis using Cons.prems(1) by simp
  qed
  let ?entries = "refs_of result name"
  show ?case
  proof (cases "isinstance_Mutation (objs ! r)")
    case False
    let ?result2 = "append_item result name r"
    have run: "accumulate_name apply_delta name objs ?result2 rest = (Inr result', objs')"
      using Cons.prems(5) False by (cases "objs ! r") simp_all
    have v: "valid_refs objs ?result2" using Cons.prems(4) r by (rule valid_refs_append_item)
    from Cons.IH[OF Cons.prems(1,2) rest0 v run] obtain new where
      n1: "refs_of result' name = refs_of ?result2 name @ new"
      and n2: "entries_ok apply_delta objs0 objs' (last_entry (refs_of ?result2 name)) rest new"
      and n3: "\<forall>n. n \<noteq> name \<longrightarrow> refs_of result' n = refs_of ?result2 n"
      and n4: "\<forall>e \<in> set new. e < length objs'"
      by blast
    obtain suffix where ext: "objs' = objs @ suffix"
      using accumulate_name_extends[of apply_delta name objs ?result2 rest] run by auto
    have le: "last_entry (refs_of ?result2 name) = Some r"
      by (simp add: last_entry_def refs_of_append_item)
    have head: "case objs0 ! r of Mutation t d src vo l f \<Rightarrow> False | _ \<Rightarrow> True"
      using False same by (cases "objs0 ! r") simp_all
    have ok: "entries_ok apply_delta objs0 objs' (last_entry ?entries) (r # rest) (r # new)"
      using n2 head by (cases "objs0 ! r") (simp_all add: le)
    have "refs_of result' name = ?entries @ (r # new)"
      using n1 by (simp add: refs_of_append_item)
    moreover have "\<forall>n. n \<noteq> name \<longrightarrow> refs_of result' n = refs_of result n"
      using n3 by (simp add: refs_of_append_item)
    moreover have "\<forall>e \<in> set (r # new). e < length objs'"
      using n4 r by (simp add: ext)
    ultimately show ?thesis using ok by blast
  next
    case True
    then obtain t d src vo l f where m: "objs ! r = Mutation t d src vo l f"
      by (cases "objs ! r") auto
    let ?result1 = "snd (getitem result name)"
    have ne: "?entries \<noteq> []"
      using Cons.prems(5) by (auto simp: m Let_def case_prod_unfold refs_of_getitem_fst)
    have lv: "last ?entries < length objs"
      using Cons.prems(4) ne valid_refs_entries[of objs result "last ?entries" name]
      by (simp add: refs_of_getitem_fst)
    have lo: "(objs @ [Mutation t d src vo l f]) ! last ?entries = objs ! last ?entries"
      using lv by (simp add: nth_append)
    obtain prev where prev: "getattr_value (objs ! last ?entries) = Inr prev"
      using Cons.prems(5) ne
      by (cases "getattr_value (objs ! last ?entries)")
         (simp_all add: m Let_def case_prod_unfold refs_of_getitem_fst lo)
    let ?new = "Mutation t d src (Some (apply_delta prev d)) l f"
    let ?objs2 = "objs @ [?new]"
    let ?result2 = "append_item ?result1 name (length objs)"
    have run: "accumulate_name apply_delta name ?objs2 ?result2 rest = (Inr result', objs')"
      using Cons.prems(5) ne prev
      by (simp add: m Let_def case_prod_unfold refs_of_getitem_fst lo)
    have t2: "take (length objs0) ?objs2 = objs0" and l2: "length objs0 \<le> length ?objs2"
      using Cons.prems(1,2) by simp_all
    have v2: "valid_refs ?objs2 ?result2"
      using Cons.prems(4) by (simp add: valid_refs_getitem valid_refs_extend valid_refs_append_item)
    from Cons.IH[OF t2 l2 rest0 v2 run] obtain new where
      n1: "refs_of result' name = refs_of ?result2 name @ new"
      and n2: "entries_ok apply_delta objs0 objs' (last_entry (refs_of ?result2 name)) rest new"
      and n3: "\<forall>n. n \<noteq> name \<longrightarrow> refs_of result' n = refs_of ?result2 n"
      and n4: "\<forall>e \<in> set new. e < length objs'"
      by blast
    obtain suffix where ext: "objs' = ?objs2 @ suffix"
      using accumulate_name_extends[of apply_delta name ?objs2 ?result2 rest] run by auto
    have r2: "refs_of ?result2 n = (if n = name then ?entries @ [length objs] else refs_of result n)" for n
      by (simp add: refs_of_append_item refs_of_getitem_snd)
    have le2: "last_entry (refs_of ?result2 name) = Some (length objs)"
      by (simp add: last_entry_def r2)
    have le: "last_entry ?entries = Some (last ?entries)" using ne by (simp add: last_entry_def)
    have p': "objs' ! last ?entries = objs ! last ?entries"
      using lv by (simp add: ext nth_append)
    have e': "objs' ! length objs = ?new" by (simp add: ext nth_append)
    have m0: "objs0 ! r = Mutation t d src vo l f" using same m by simp
    have l1: "length objs < length objs'" by (simp add: ext)
    have ok: "entries_ok apply_delta objs0 objs' (last_entry ?entries) (r # rest) (length objs # new)"
      using n2 Cons.prems(2) l1 by (simp add: le le2 m0 p' prev e')
    have "refs_of result' name = ?entries @ (length objs # new)"
      using n1 by (simp add: r2)
    moreover have "\<forall>n. n \<noteq> name \<longrightarrow> refs_of result' n = refs_of result n"
      using n3 by (simp add: r2)
    moreover have "\<forall>e \<in> set (length objs # new). e < length objs'"
      using n4 by (simp add: ext)
    ultimately show ?thesis using ok by blast
  qed
qed

lemma accumulate_items_entries:
  assumes "take (length objs0) objs = objs0" and "length objs0 \<le> length objs"
    and "valid_refs objs0 items" and "valid_refs objs result"
    and "distinct (map fst items)"
    and "\<forall>item \<in> set items. refs_of result (fst item) = []"
    and "accumulate_items apply_delta objs result items = (Inr result', objs')"
  shows "(\<forall>item \<in> set items.
            entries_ok apply_delta objs0 objs' None (snd item) (refs_of result' (fst item)))
       \<and> (\<forall>n. n \<notin> fst ` set items \<longrightarrow> refs_of result' n = refs_of result n)"
  using assms
proof (induction items arbitrary: objs result)
  case Nil
  then show ?case by simp
next
  case (Cons item items)
  obtain name raw where item: "item = (name, raw)" by (cases item)
  let ?run = "accumulate_name apply_delta name objs result raw"
  obtain result1 where r1: "fst ?run = Inr result1"
    using Cons.prems(7) by (cases "fst ?run") (simp_all add: item case_prod_unfold)
  let ?objs1 = "snd ?run"
  have run1: "?run = (Inr result1, ?objs1)" using r1 by (metis prod.collapse)
  have run2: "accumulate_items apply_delta ?objs1 result1 items = (Inr result', objs')"
    using Cons.prems(7) r1 by (simp add: item case_prod_unfold)
  have raw0: "\<forall>r \<in> set raw. r < length objs0" and items0: "valid_refs objs0 items"
    using Cons.prems(3) by (auto simp: valid_refs_def item)
  have raw: "\<forall>r \<in> set raw. r < length objs" using raw0 Cons.prems(2) by auto
  obtain suffix where ext: "?objs1 = objs @ suffix"
    using accumulate_name_extends by blast
  have v1: "valid_refs ?objs1 result1"
    using accumulate_name_simulates[OF Cons.prems(4) raw, of apply_delta name] r1 by blast
  have empty: "refs_of result name = []" using Cons.prems(6) by (simp add: item)
  from accumulate_name_entries[OF Cons.prems(1,2) raw0 Cons.prems(4) run1] obtain new where
    n1: "refs_of result1 name = new"
    and n2: "entries_ok apply_delta objs0 ?objs1 None raw new"
    and n3: "\<forall>n. n \<noteq> name \<longrightarrow> refs_of result1 n = refs_of result n"
    and n4: "\<forall>e \<in> set new. e < length ?objs1"
    by (auto simp: empty last_entry_def)
  have t1: "take (length objs0) ?objs1 = objs0" and l1: "length objs0 \<le> length ?objs1"
    using Cons.prems(1,2) by (simp_all add: ext)
  have d: "distinct (map fst items)" and notin: "name \<notin> fst ` set items"
    using Cons.prems(5) by (simp_all add: item)
  have e1: "\<forall>item \<in> set items. refs_of result1 (fst item) = []"
  proof
    fix it assume it: "it \<in> set items"
    then have "fst it \<noteq> name" using notin by auto
    then have "refs_of result1 (fst it) = refs_of result (fst it)" using n3 by simp
    then show "refs_of result1 (fst it) = []" using Cons.prems(6) it by simp
  qed
  from Cons.IH[OF t1 l1 items0 v1 d e1 run2]
  have ih1: "\<forall>item \<in> set items.
            entries_ok apply_delta objs0 objs' None (snd item) (refs_of result' (fst item))"
    and ih2: "\<forall>n. n \<notin> fst ` set items \<longrightarrow> refs_of result' n = refs_of result1 n"
    by blast+
  obtain suffix' where ext': "objs' = ?objs1 @ suffix'"
    using accumulate_items_extends[of apply_delta ?objs1 result1 items] run2 by auto
  have "entries_ok apply_delta objs0 objs' None raw new"
    unfolding ext' using n2 n4 by (rule entries_ok_extend) simp
  moreover have "refs_of result' name = new" using ih2 notin n1 by simp
  ultimately have head: "entries_ok apply_delta objs0 objs' None raw (refs_of result' name)"
    by simp
  have others: "\<forall>n. n \<notin> fst ` set (item # items) \<longrightarrow> refs_of result' n = refs_of result n"
    using ih2 n3 by (simp add: item)
  show ?case using head ih1 others by (simp add: item)
qed

lemma accumulated_events_entries:
  assumes "wf_state s" and "fst (accumulated_events apply_delta s) = Inr result"
  shows "entries_ok apply_delta (event_objs s) (event_objs (snd (accumulated_events apply_delta s)))
           None (refs_of (raw_events s) name) (refs_of result name)"
proof -
  let ?objs' = "event_objs (snd (accumulated_events apply_delta s))"
  have run: "accumulate_items apply_delta (event_objs s) [] (raw_events s) = (Inr result, ?objs')"
    using assms(2) by (simp add: accumulated_events_def case_prod_unfold prod_eq_iff)
  have d: "distinct (map fst (raw_events s))" using assms(1) by (simp add: wf_state_def)
  have v0: "valid_refs (event_objs s) ([] :: (string \<times> ref list) list)"
    by (simp add: valid_refs_def)
  have e0: "\<forall>item \<in> set (raw_events s). refs_of ([] :: (string \<times> ref list) list) (fst item) = []"
    by (simp add: refs_of_def)
  from accumulate_items_entries[OF _ _ wf_state_valid_refs[OF assms(1)] v0 d e0 run]
  have a: "\<forall>item \<in> set (raw_events s).
            entries_ok apply_delta (event_objs s) ?objs' None (snd item) (refs_of result (fst item))"
    and b: "\<forall>n. n \<notin> fst ` set (raw_events s) \<longrightarrow> refs_of result n = refs_of [] n"
    by simp_all
  show ?thesis
  proof (cases "map_of (raw_events s) name")
    case None
    then have "name \<notin> fst ` set (raw_events s)" by (simp add: map_of_eq_None_iff)
    then have "refs_of result name = []" using b by (simp add: refs_of_def)
    then show ?thesis using None by (simp add: refs_of_def)
  next
    case (Some refs)
    then have "(name, refs) \<in> set (raw_events s)" by (rule map_of_SomeD)
    then show ?thesis using a Some by (fastforce simp: refs_of_def)
  qed
qed

text \<open>
  C9. In a state of a frame, \<open>accumulated_events\<close> mutates neither the frame nor a
  persisted event: \<open>raw_events\<close>, the snapshots and every event object that existed
  before the call are as they were (the call only adds objects to the store), so every
  timeline, with its stored deltas, is unchanged. A second call yields a result identical
  to the first (the same exception, or the same keys with events of equal contents). In
  a returned view, an event that is not a \<open>Mutation\<close> is the persisted object, and a
  \<open>Mutation\<close> entry is a fresh copy that carries the value of the previous entry with
  the mutation's delta applied.
\<close>

theorem accumulated_events_pure:
  assumes "reachable diff apply_delta s"
  shows "records_nothing s (snd (accumulated_events apply_delta s))
    \<and> raw_events (snd (accumulated_events apply_delta s)) = raw_events s
    \<and> (\<forall>name. timeline (snd (accumulated_events apply_delta s)) name = timeline s name)
    \<and> view_of (event_objs (snd (accumulated_events apply_delta
                                   (snd (accumulated_events apply_delta s)))))
         (fst (accumulated_events apply_delta (snd (accumulated_events apply_delta s))))
       = view_of (event_objs (snd (accumulated_events apply_delta s)))
           (fst (accumulated_events apply_delta s))
    \<and> (\<forall>result name. fst (accumulated_events apply_delta s) = Inr result \<longrightarrow>
          entries_ok apply_delta (event_objs s)
            (event_objs (snd (accumulated_events apply_delta s))) None
            (refs_of (raw_events s) name) (refs_of result name))"
proof -
  have wf: "wf_state s" using assms reachable_frame_inv by (auto simp: frame_inv_def)
  have a: "records_nothing s (snd (accumulated_events apply_delta s))"
    by (rule records_nothing_accumulated_events)
  have b: "raw_events (snd (accumulated_events apply_delta s)) = raw_events s"
    by (rule accumulated_events_raw_events)
  have c: "\<forall>name. timeline (snd (accumulated_events apply_delta s)) name = timeline s name"
    using timeline_records_nothing[OF wf a] by simp
  have d: "view_of (event_objs (snd (accumulated_events apply_delta
                                   (snd (accumulated_events apply_delta s)))))
         (fst (accumulated_events apply_delta (snd (accumulated_events apply_delta s))))
       = view_of (event_objs (snd (accumulated_events apply_delta s)))
           (fst (accumulated_events apply_delta s))"
    using wf by (rule accumulated_events_idempotent)
  have e: "\<forall>result name. fst (accumulated_events apply_delta s) = Inr result \<longrightarrow>
          entries_ok apply_delta (event_objs s)
            (event_objs (snd (accumulated_events apply_delta s))) None
            (refs_of (raw_events s) name) (refs_of result name)"
    using accumulated_events_entries[OF wf] by blast
  from a b c d e show ?thesis by blast
qed

theorem accumulated_events_pure_witness:
  "reachable replace_diff replace_delta swap_frame
   \<and> fst (accumulated_events replace_delta swap_frame) = Inr [(''x'', [0, 4]), (''y'', [1, 5])]
   \<and> view_of (event_objs (snd (accumulated_events replace_delta swap_frame)))
        (fst (accumulated_events replace_delta swap_frame))
      = Inr [(''x'', [Creation ''x'' ''foo'' [] 1 ''swap.py'',
                      Mutation ''x'' ''bar'' [(''y'', 0)] (Some ''bar'') 3 ''swap.py'']),
             (''y'', [Creation ''y'' ''bar'' [] 2 ''swap.py'',
                      Mutation ''y'' ''foo'' [(''x'', 0)] (Some ''foo'') 3 ''swap.py''])]
   \<and> view_of (event_objs (snd (accumulated_events replace_delta
                                  (snd (accumulated_events replace_delta swap_frame)))))
        (fst (accumulated_events replace_delta (snd (accumulated_events replace_delta swap_frame))))
      = view_of (event_objs (snd (accumulated_events replace_delta swap_frame)))
          (fst (accumulated_events replace_delta swap_frame))
   \<and> raw_events (snd (accumulated_events replace_delta swap_frame)) = raw_events swap_frame
   \<and> timeline (snd (accumulated_events replace_delta swap_frame)) ''x'' = timeline swap_frame ''x''
   \<and> entries_ok replace_delta (event_objs swap_frame)
        (event_objs (snd (accumulated_events replace_delta swap_frame))) None
        (refs_of (raw_events swap_frame) ''x'') (refs_of [(''x'', [0, 4]), (''y'', [1, 5])] ''x'')"
proof -
  have r: "fst (accumulated_events replace_delta swap_frame) = Inr [(''x'', [0, 4]), (''y'', [1, 5])]"
    by code_simp
  have v: "view_of (event_objs (snd (accumulated_events replace_delta swap_frame)))
        (fst (accumulated_events replace_delta swap_frame))
      = Inr [(''x'', [Creation ''x'' ''foo'' [] 1 ''swap.py'',
                      Mutation ''x'' ''bar'' [(''y'', 0)] (Some ''bar'') 3 ''swap.py'']),
             (''y'', [Creation ''y'' ''bar'' [] 2 ''swap.py'',
                      Mutation ''y'' ''foo'' [(''x'', 0)] (Some ''foo'') 3 ''swap.py''])]"
    by code_simp
  from accumulated_events_pure[OF reachable_swap_frame] r v reachable_swap_frame
  show ?thesis by blast
qed

end
